theory Spec2Isabelle
  imports Main "HOL-Library.AList"
begin

section \<open>Strings and character classes\<close>

text \<open>
  A Python \<^verbatim>\<open>str\<close> is a sequence of code points. Passwords and timestamps are modelled as
  Isabelle strings, whose characters are the code points below 256; text that may hold
  larger code points (the strength labels, file contents) is a list of code points.
  \<^verbatim>\<open>string.ascii_uppercase\<close>, \<^verbatim>\<open>string.ascii_lowercase\<close> and \<^verbatim>\<open>string.digits\<close> are the
  constants of Python's \<^verbatim>\<open>string\<close> module; the symbol class is the literal of
  \<^verbatim>\<open>generate_password\<close> and \<^verbatim>\<open>check_strength\<close>.
\<close>

type_synonym ustr = "nat list"

definition cps :: "string \<Rightarrow> ustr" where
  "cps s = map of_char s"

definition ascii_uppercase :: string where
  "ascii_uppercase = ''ABCDEFGHIJKLMNOPQRSTUVWXYZ''"

definition ascii_lowercase :: string where
  "ascii_lowercase = ''abcdefghijklmnopqrstuvwxyz''"

definition digits :: string where
  "digits = ''0123456789''"

definition symbols :: string where
  "symbols = ''!@#$%^&*()_+-=[]{}|;:,.<>?''"

text \<open>
  \<^verbatim>\<open>c.islower()\<close>, \<^verbatim>\<open>c.isupper()\<close> and \<^verbatim>\<open>c.isdigit()\<close> on a one-character string, as
  Python's Unicode tables give them for the code points below 256: besides the ASCII
  letters and digits, the Latin-1 letters and the superscript digits.
\<close>

definition islower :: "char \<Rightarrow> bool" where
  "islower c =
     (let n = (of_char c :: nat)
      in (97 \<le> n \<and> n \<le> 122) \<or> n = 170 \<or> n = 181 \<or> n = 186
         \<or> (223 \<le> n \<and> n \<le> 246) \<or> (248 \<le> n \<and> n \<le> 255))"

definition isupper :: "char \<Rightarrow> bool" where
  "isupper c =
     (let n = (of_char c :: nat)
      in (65 \<le> n \<and> n \<le> 90) \<or> (192 \<le> n \<and> n \<le> 214) \<or> (216 \<le> n \<and> n \<le> 222))"

definition isdigit :: "char \<Rightarrow> bool" where
  "isdigit c =
     (let n = (of_char c :: nat)
      in (48 \<le> n \<and> n \<le> 57) \<or> n = 178 \<or> n = 179 \<or> n = 185)"

section \<open>The strength heuristic\<close>

text \<open>
  \<^verbatim>\<open>check_strength\<close> returns one of three literals, a coloured circle followed by the
  Russian word for weak, medium or strong. The three results are a datatype; \<open>label\<close>
  gives the code points of the literal.
\<close>

datatype strength = Weak | Medium | Strong

fun label :: "strength \<Rightarrow> ustr" where
  "label Weak = [128308, 32, 1057, 1083, 1072, 1073, 1099, 1081]"
| "label Medium = [128993, 32, 1057, 1088, 1077, 1076, 1085, 1080, 1081]"
| "label Strong = [128994, 32, 1057, 1080, 1083, 1100, 1085, 1099, 1081]"

datatype colour = Unset | Red | Orange | Green

text \<open>The score: five tests in sequence, each adding one to the running score.\<close>

definition score :: "string \<Rightarrow> nat" where
  "score password =
     (let s0 = 0;
          s1 = (if length password \<ge> 12 then s0 + 1 else s0);
          s2 = (if list_ex islower password then s1 + 1 else s1);
          s3 = (if list_ex isupper password then s2 + 1 else s2);
          s4 = (if list_ex isdigit password then s3 + 1 else s3);
          s5 = (if list_ex (\<lambda>c. c \<in> set symbols) password then s4 + 1 else s4)
      in s5)"

text \<open>
  \<^verbatim>\<open>check_strength\<close> returns the label and sets the colour of the strength widget; the
  pair is (returned label, colour configured).
\<close>

definition check_strength :: "string \<Rightarrow> strength \<times> colour" where
  "check_strength password =
     (if score password \<le> 2 then (Weak, Red)
      else if score password \<le> 4 then (Medium, Orange)
      else (Strong, Green))"

section \<open>The history file: \<^verbatim>\<open>json.dump\<close> with \<^verbatim>\<open>indent=2\<close>\<close>

text \<open>
  A history entry is the dictionary that \<^verbatim>\<open>generate_password\<close> appends: the keys
  \<^verbatim>\<open>password\<close>, \<^verbatim>\<open>timestamp\<close> and \<^verbatim>\<open>strength\<close>, in this order.
\<close>

record entry =
  password :: string
  timestamp :: string
  strength :: strength

text \<open>
  \<^verbatim>\<open>json.dump\<close> runs with its default \<^verbatim>\<open>ensure_ascii=True\<close>: inside a string, the quote,
  the backslash and the control characters with a short escape are written with it, the
  printable ASCII characters are written as they are, and every other code point is
  written as \<^verbatim>\<open>\uXXXX\<close> with four lowercase hexadecimal digits, a code point above
  \<^verbatim>\<open>0xFFFF\<close> as a surrogate pair.
\<close>

definition hexdigit :: "nat \<Rightarrow> nat" where
  "hexdigit d = (if d < 10 then 48 + d else 87 + d)"

definition hexdigits4 :: "nat \<Rightarrow> ustr" where
  "hexdigits4 n =
     [hexdigit (n div 4096 mod 16), hexdigit (n div 256 mod 16),
      hexdigit (n div 16 mod 16), hexdigit (n mod 16)]"

definition uescape :: "nat \<Rightarrow> ustr" where
  "uescape n = 92 # 117 # hexdigits4 n"

definition esc_char :: "nat \<Rightarrow> ustr" where
  "esc_char c =
     (if c = 34 then [92, 34]
      else if c = 92 then [92, 92]
      else if c = 10 then [92, 110]
      else if c = 13 then [92, 114]
      else if c = 9 then [92, 116]
      else if c = 12 then [92, 102]
      else if c = 8 then [92, 98]
      else if 32 \<le> c \<and> c \<le> 126 then [c]
      else if c < 65536 then uescape c
      else uescape (55296 + (c - 65536) div 1024 mod 1024)
           @ uescape (56320 + (c - 65536) mod 1024))"

definition dump_str :: "ustr \<Rightarrow> ustr" where
  "dump_str s = [34] @ concat (map esc_char s) @ [34]"

definition indent :: "nat \<Rightarrow> ustr" where
  "indent n = 10 # replicate n 32"

text \<open>
  One dictionary at nesting level 1 of the list: every key on a line of its own, indented
  by four spaces, \<^verbatim>\<open>": "\<close> between key and value, \<^verbatim>\<open>","\<close> after every item but the last.
\<close>

definition dump_entry :: "entry \<Rightarrow> ustr" where
  "dump_entry e =
     [123] @ indent 4 @ dump_str (cps ''password'') @ [58, 32] @ dump_str (cps (password e))
     @ [44] @ indent 4 @ dump_str (cps ''timestamp'') @ [58, 32] @ dump_str (cps (timestamp e))
     @ [44] @ indent 4 @ dump_str (cps ''strength'') @ [58, 32] @ dump_str (label (strength e))
     @ indent 2 @ [125]"

fun dump_items :: "entry list \<Rightarrow> ustr" where
  "dump_items [] = []"
| "dump_items [e] = indent 2 @ dump_entry e"
| "dump_items (e # es) = indent 2 @ dump_entry e @ [44] @ dump_items es"

definition dump_history :: "entry list \<Rightarrow> ustr" where
  "dump_history es = (if es = [] then [91, 93] else [91] @ dump_items es @ indent 0 @ [93])"

section \<open>The runtime\<close>

text \<open>
  What the program takes from the Python installation it runs on, and never sets itself:
  \<^item> \<open>windows\<close>: whether \<^verbatim>\<open>os.linesep\<close> is carriage return and line feed, as on Windows, or
    the line feed alone;
  \<^item> \<open>csv_quotes_cr\<close>: whether the \<^verbatim>\<open>csv\<close> writer quotes a field for a carriage return or
    line feed whatever the line terminator is (newer releases of CPython), or only for the
    characters of its line terminator (older ones);
  \<^item> \<open>max_str_digits\<close>: the limit on the digits of an integer converted from text
    (\<^verbatim>\<open>sys.get_int_max_str_digits()\<close>: 4300 by default, 0 for no limit, never between 1 and
    639);
  \<^item> \<open>spare_depth\<close>: the recursion limit (1000 by default) leaves room for far more than
    the two nested levels of a history where \<^verbatim>\<open>load_history\<close> calls the decoder; this is
    the number of levels beyond those two.
  The exceptions are the ones that can leave the methods modelled here.
\<close>

record runtime =
  windows :: bool
  csv_quotes_cr :: bool
  max_str_digits :: nat
  spare_depth :: nat

definition linesep :: "runtime \<Rightarrow> ustr" where
  "linesep rt = (if windows rt then [13, 10] else [10])"

datatype exn = OSError | UnicodeDecodeError | JSONDecodeError | ValueError | RecursionError

section \<open>Reading the history file: \<^verbatim>\<open>json.load\<close>\<close>

text \<open>
  \<^verbatim>\<open>json.load\<close> is Python's standard decoder. A decoded value is \<^verbatim>\<open>None\<close>, a truth value,
  a number, a string, a list or a dictionary. A number is kept as the text that was read
  (its value as \<^verbatim>\<open>int\<close> or \<^verbatim>\<open>float\<close> is not modelled). A dictionary is the list of its items
  in insertion order; a key that occurs again keeps its place and takes the later value.
  Besides \<^verbatim>\<open>JSONDecodeError\<close> for text that is not JSON, the decoder raises \<^verbatim>\<open>ValueError\<close>
  for an integer with more digits than the limit and \<^verbatim>\<open>RecursionError\<close> for lists and
  dictionaries nested deeper than the recursion limit allows.
\<close>

datatype json = JNull | JBool bool | JNum ustr | JStr ustr | JArr "json list"
  | JObj "(ustr \<times> json) list"

text \<open>The decoder skips space, tab, line feed and carriage return between tokens.\<close>

definition is_ws :: "nat \<Rightarrow> bool" where
  "is_ws c = (c = 32 \<or> c = 9 \<or> c = 10 \<or> c = 13)"

definition skip_ws :: "ustr \<Rightarrow> ustr" where
  "skip_ws s = dropWhile is_ws s"

text \<open>
  Strings. \<open>scanstring acc s\<close> reads the text after the opening quote: up to the closing
  quote it collects the characters, decoding a backslash escape; a \<^verbatim>\<open>\uXXXX\<close> escape needs
  four hexadecimal digits, and a high surrogate followed by the escape of a low surrogate
  is one code point. A control character below 32, an unknown escape and a missing closing
  quote are errors. The result is the string and the text after the closing quote.
\<close>

definition hexval :: "nat \<Rightarrow> nat option" where
  "hexval c =
     (if 48 \<le> c \<and> c \<le> 57 then Some (c - 48)
      else if 97 \<le> c \<and> c \<le> 102 then Some (c - 87)
      else if 65 \<le> c \<and> c \<le> 70 then Some (c - 55)
      else None)"

fun hex4 :: "ustr \<Rightarrow> nat option" where
  "hex4 (a # b # c # d # r) =
     (case (hexval a, hexval b, hexval c, hexval d) of
        (Some x, Some y, Some z, Some w) \<Rightarrow> Some (((x * 16 + y) * 16 + z) * 16 + w)
      | _ \<Rightarrow> None)"
| "hex4 _ = None"

definition backslash :: "nat \<Rightarrow> nat option" where
  "backslash e =
     (if e = 34 then Some 34
      else if e = 92 then Some 92
      else if e = 47 then Some 47
      else if e = 98 then Some 8
      else if e = 102 then Some 12
      else if e = 110 then Some 10
      else if e = 114 then Some 13
      else if e = 116 then Some 9
      else None)"

definition low_escape :: "ustr \<Rightarrow> nat option" where
  "low_escape s =
     (case s of
        b # u # r \<Rightarrow>
          if b = 92 \<and> u = 117
          then (case hex4 r of
                  Some v \<Rightarrow> if 56320 \<le> v \<and> v \<le> 57343 then Some v else None
                | None \<Rightarrow> None)
          else None
      | _ \<Rightarrow> None)"

fun scanstring :: "ustr \<Rightarrow> ustr \<Rightarrow> (ustr \<times> ustr) option" where
  "scanstring acc [] = None"
| "scanstring acc (c # r) =
     (if c = 34 then Some (acc, r)
      else if c = 92 then
        (case r of
           [] \<Rightarrow> None
         | e # r' \<Rightarrow>
             if e = 117 then
               (case hex4 r' of
                  None \<Rightarrow> None
                | Some v \<Rightarrow>
                    if 55296 \<le> v \<and> v \<le> 56319 then
                      (case low_escape (drop 4 r') of
                         Some v2 \<Rightarrow>
                           scanstring (acc @ [65536 + (v - 55296) * 1024 + (v2 - 56320)])
                             (drop 10 r')
                       | None \<Rightarrow> scanstring (acc @ [v]) (drop 4 r'))
                    else scanstring (acc @ [v]) (drop 4 r'))
             else
               (case backslash e of
                  None \<Rightarrow> None
                | Some x \<Rightarrow> scanstring (acc @ [x]) r'))
      else if c < 32 then None
      else scanstring (acc @ [c]) r)"

text \<open>
  Numbers: an optional minus sign, then \<^verbatim>\<open>0\<close> or a digit from 1 to 9 followed by digits;
  then, only when at least one digit follows, a fraction and an exponent.
\<close>

definition is_digit :: "nat \<Rightarrow> bool" where
  "is_digit c = (48 \<le> c \<and> c \<le> 57)"

definition frac_part :: "ustr \<Rightarrow> ustr \<times> ustr" where
  "frac_part s =
     (case s of
        p # r \<Rightarrow>
          if p = 46 \<and> takeWhile is_digit r \<noteq> []
          then (p # takeWhile is_digit r, dropWhile is_digit r)
          else ([], s)
      | [] \<Rightarrow> ([], s))"

definition exp_sign :: "ustr \<Rightarrow> ustr \<times> ustr" where
  "exp_sign s =
     (case s of
        g # r \<Rightarrow> if g = 43 \<or> g = 45 then ([g], r) else ([], s)
      | [] \<Rightarrow> ([], s))"

definition exp_part :: "ustr \<Rightarrow> ustr \<times> ustr" where
  "exp_part s =
     (case s of
        e # r \<Rightarrow>
          if (e = 101 \<or> e = 69) \<and> takeWhile is_digit (snd (exp_sign r)) \<noteq> []
          then (e # fst (exp_sign r) @ takeWhile is_digit (snd (exp_sign r)),
                dropWhile is_digit (snd (exp_sign r)))
          else ([], s)
      | [] \<Rightarrow> ([], s))"

definition int_part :: "ustr \<Rightarrow> (ustr \<times> ustr) option" where
  "int_part s =
     (let sign = (if take 1 s = [45] then [45] else []);
          r = drop (length sign) s
      in case r of
           [] \<Rightarrow> None
         | d # r' \<Rightarrow>
             if d = 48 then Some (sign @ [d], r')
             else if 49 \<le> d \<and> d \<le> 57
             then Some (sign @ d # takeWhile is_digit r', dropWhile is_digit r')
             else None)"

text \<open>
  \<open>match_number\<close> gives the integer part, the fraction with the exponent, and the text
  left. A number without fraction and exponent is converted to \<^verbatim>\<open>int\<close>, which the limit on
  digits can refuse.
\<close>

definition match_number :: "ustr \<Rightarrow> (ustr \<times> ustr \<times> ustr) option" where
  "match_number s =
     (case int_part s of
        None \<Rightarrow> None
      | Some (i, r) \<Rightarrow>
          Some (i, fst (frac_part r) @ fst (exp_part (snd (frac_part r))),
                snd (exp_part (snd (frac_part r)))))"

definition over_limit :: "nat \<Rightarrow> ustr \<Rightarrow> bool" where
  "over_limit mx i =
     (0 < mx \<and> mx < length (filter is_digit i) \<and> 640 < length (filter is_digit i))"

definition literal :: "string \<Rightarrow> ustr \<Rightarrow> bool" where
  "literal w s = (take (length w) s = cps w)"

text \<open>
  Values. \<open>scan_once\<close> reads one value at the start of the text, \<open>array_items\<close> the items
  of a list after its opening bracket and \<open>object_items\<close> the items of a dictionary after
  the opening quote of a key. \<open>mx\<close> is the limit on digits and \<open>d\<close> the number of levels
  of lists and dictionaries that may still be entered. Each test that the text left is
  shorter than the text read is there for the termination proof only: \<open>scan_once\<close> always
  consumes a character, as \<open>scan_shorter\<close> below shows.
\<close>

lemma length_skip_ws [termination_simp]: "length (skip_ws s) \<le> length s"
  by (simp add: skip_ws_def length_dropWhile_le)

lemma scanstring_shorter: "scanstring acc s = Some (x, r) \<Longrightarrow> length r < length s"
proof (induction acc s rule: scanstring.induct)
  case (1 acc)
  then show ?case by simp
next
  case (2 acc c r)
  then show ?case
    by (auto split: if_splits list.splits option.splits) fastforce+
qed

lemma skip_ws_tail: "skip_ws r = q # r' \<Longrightarrow> length r' < length r"
  using length_skip_ws [of r] by simp

lemma skip_ws_bound: "length r < n \<Longrightarrow> 2 * length (skip_ws r) < Suc (2 * n)"
  using length_skip_ws [of r] by simp

lemma skip_ws_less: "length t < length (skip_ws r) \<Longrightarrow> length t < length r"
  using length_skip_ws [of r] by simp

function scan_once :: "nat \<Rightarrow> nat \<Rightarrow> ustr \<Rightarrow> exn + (json \<times> ustr)"
  and array_items :: "nat \<Rightarrow> nat \<Rightarrow> json list \<Rightarrow> ustr \<Rightarrow> exn + (json \<times> ustr)"
  and object_items :: "nat \<Rightarrow> nat \<Rightarrow> (ustr \<times> json) list \<Rightarrow> ustr \<Rightarrow> exn + (json \<times> ustr)"
where
  "scan_once mx d s =
     (case s of
        [] \<Rightarrow> Inl JSONDecodeError
      | c # r \<Rightarrow>
          if c = 34 then
            (case scanstring [] r of
               None \<Rightarrow> Inl JSONDecodeError
             | Some (x, r') \<Rightarrow> Inr (JStr x, r'))
          else if c = 123 then
            (if d = 0 then Inl RecursionError
             else
               (case skip_ws r of
                  [] \<Rightarrow> Inl JSONDecodeError
                | q # r' \<Rightarrow>
                    if q = 125 then Inr (JObj [], r')
                    else if q = 34 then object_items mx (d - 1) [] r'
                    else Inl JSONDecodeError))
          else if c = 91 then
            (if d = 0 then Inl RecursionError
             else
               (case skip_ws r of
                  [] \<Rightarrow> Inl JSONDecodeError
                | q # r' \<Rightarrow>
                    if q = 93 then Inr (JArr [], r') else array_items mx (d - 1) [] (q # r')))
          else if literal ''null'' s then Inr (JNull, drop 4 s)
          else if literal ''true'' s then Inr (JBool True, drop 4 s)
          else if literal ''false'' s then Inr (JBool False, drop 5 s)
          else
            (case match_number s of
               Some (i, fe, r') \<Rightarrow>
                 if fe = [] \<and> over_limit mx i then Inl ValueError
                 else Inr (JNum (i @ fe), r')
             | None \<Rightarrow>
                 if literal ''NaN'' s then Inr (JNum (cps ''NaN''), drop 3 s)
                 else if literal ''Infinity'' s then Inr (JNum (cps ''Infinity''), drop 8 s)
                 else if literal ''-Infinity'' s then Inr (JNum (cps ''-Infinity''), drop 9 s)
                 else Inl JSONDecodeError))"
| "array_items mx d acc s =
     (case scan_once mx d s of
        Inl e \<Rightarrow> Inl e
      | Inr (v, r) \<Rightarrow>
          if length r < length s then
            (case skip_ws r of
               [] \<Rightarrow> Inl JSONDecodeError
             | q # r' \<Rightarrow>
                 if q = 93 then Inr (JArr (acc @ [v]), r')
                 else if q = 44 then array_items mx d (acc @ [v]) (skip_ws r')
                 else Inl JSONDecodeError)
          else Inl JSONDecodeError)"
| "object_items mx d acc s =
     (case scanstring [] s of
        None \<Rightarrow> Inl JSONDecodeError
      | Some (k, r1) \<Rightarrow>
          (case skip_ws r1 of
             [] \<Rightarrow> Inl JSONDecodeError
           | c # r2 \<Rightarrow>
               if c = 58 then
                 (case scan_once mx d (skip_ws r2) of
                    Inl e \<Rightarrow> Inl e
                  | Inr (v, r3) \<Rightarrow>
                      if length r3 < length (skip_ws r2) then
                        (case skip_ws r3 of
                           [] \<Rightarrow> Inl JSONDecodeError
                         | q # r4 \<Rightarrow>
                             if q = 125 then Inr (JObj (AList.update k v acc), r4)
                             else if q = 44 then
                               (case skip_ws r4 of
                                  [] \<Rightarrow> Inl JSONDecodeError
                                | q' # r5 \<Rightarrow>
                                    if q' = 34 then object_items mx d (AList.update k v acc) r5
                                    else Inl JSONDecodeError)
                             else Inl JSONDecodeError)
                      else Inl JSONDecodeError)
               else Inl JSONDecodeError))"
  by pat_completeness auto
termination
proof (relation "measure (\<lambda>x. case x of Inl (mx, d, s) \<Rightarrow> 2 * length s
                                    | Inr (Inl (mx, d, acc, s)) \<Rightarrow> 2 * length s + 1
                                    | Inr (Inr (mx, d, acc, s)) \<Rightarrow> 2 * length s + 1)",
       goal_cases)
  case 1
  show ?case by simp
next
  case 2
  then show ?case by (auto dest!: skip_ws_tail)
next
  case 3
  then show ?case by (auto dest!: skip_ws_tail)
next
  case 4
  show ?case by simp
next
  case 5
  then show ?case
    by (auto dest!: skip_ws_tail intro: order.strict_trans1 [OF length_skip_ws])
next
  case 6
  then show ?case
    by (auto dest!: skip_ws_tail scanstring_shorter intro!: skip_ws_bound)
next
  case 7
  then show ?case
    by (auto dest!: skip_ws_tail scanstring_shorter dest: skip_ws_less)
qed

text \<open>
  \<^verbatim>\<open>json.loads\<close>: one value, with white space allowed before and after it and nothing else.
\<close>

definition json_loads :: "runtime \<Rightarrow> ustr \<Rightarrow> exn + json" where
  "json_loads rt s =
     (case scan_once (max_str_digits rt) (spare_depth rt + 2) (skip_ws s) of
        Inl e \<Rightarrow> Inl e
      | Inr (v, r) \<Rightarrow> if skip_ws r = [] then Inr v else Inl JSONDecodeError)"

section \<open>The file system and the application state\<close>

text \<open>
  A path holds no file, a text file, a file whose bytes are not text in the encoding that
  \<^verbatim>\<open>open\<close> uses, or something that \<^verbatim>\<open>open\<close> refuses with an \<^verbatim>\<open>OSError\<close> other than
  \<^verbatim>\<open>FileNotFoundError\<close> (a directory, a file without permission). Writing replaces a
  file of either kind.

  The state is what the methods read and write: the five variables of the settings frame,
  \<^verbatim>\<open>self.history\<close>, the entry field, the strength label with its colour, the list box, the
  files, and the message boxes shown so far. \<^verbatim>\<open>self.history\<close> is held as the list of the
  entries that \<^verbatim>\<open>generate_password\<close> builds; \<open>store_json\<close> below gives the Python value it
  stands for.
\<close>

datatype fnode = Content ustr | Undecodable | Denied

datatype dialog = Warning | Info

record app =
  length_var :: int
  upper_var :: bool
  lower_var :: bool
  digits_var :: bool
  symbols_var :: bool
  history :: "entry list"
  password_entry :: string
  strength_label :: "strength option"
  strength_colour :: colour
  history_list :: "ustr list"
  files :: "string \<rightharpoonup> fnode"
  dialogs :: "dialog list"

definition history_path :: string where
  "history_path = ''password_history.json''"

text \<open>\<^verbatim>\<open>save_history\<close>: open the history file for writing and dump the whole list.\<close>

definition save_history :: "app \<Rightarrow> exn + app" where
  "save_history st =
     (case files st history_path of
        Some Denied \<Rightarrow> Inl OSError
      | _ \<Rightarrow> Inr (st\<lparr>files := (files st)(history_path \<mapsto> Content (dump_history (history st)))\<rparr>))"

text \<open>
  \<^verbatim>\<open>load_history\<close>: the decoded content of the history file, the empty list when the file
  does not exist. Only \<^verbatim>\<open>FileNotFoundError\<close> is caught; any other exception of \<^verbatim>\<open>open\<close>, of
  reading the text or of the decoder leaves the function.
\<close>

definition load_history :: "runtime \<Rightarrow> (string \<rightharpoonup> fnode) \<Rightarrow> exn + json" where
  "load_history rt fs =
     (case fs history_path of
        None \<Rightarrow> Inr (JArr [])
      | Some Denied \<Rightarrow> Inl OSError
      | Some Undecodable \<Rightarrow> Inl UnicodeDecodeError
      | Some (Content t) \<Rightarrow> json_loads rt t)"

text \<open>
  The decoded form of a history: the list of the entries' dictionaries, each with the three
  keys in the order in which \<^verbatim>\<open>generate_password\<close> writes them.
\<close>

definition entry_json :: "entry \<Rightarrow> json" where
  "entry_json e =
     JObj [(cps ''password'', JStr (cps (password e))),
           (cps ''timestamp'', JStr (cps (timestamp e))),
           (cps ''strength'', JStr (label (strength e)))]"

definition store_json :: "entry list \<Rightarrow> json" where
  "store_json es = JArr (map entry_json es)"

text \<open>
  \<^verbatim>\<open>update_history_display\<close>: the list box shows the last ten entries, newest first, each
  as \<^verbatim>\<open>timestamp | password | strength\<close>.
\<close>

definition display_line :: "entry \<Rightarrow> ustr" where
  "display_line e =
     cps (timestamp e) @ cps '' | '' @ cps (password e) @ cps '' | '' @ label (strength e)"

definition update_history_display :: "app \<Rightarrow> app" where
  "update_history_display st =
     st\<lparr>history_list := map display_line (rev (drop (length (history st) - 10) (history st)))\<rparr>"

section \<open>Generating a password\<close>

text \<open>
  The character set is built by appending the selected classes to the empty string, in the
  order of the four tests.
\<close>

definition charset :: "app \<Rightarrow> string" where
  "charset st =
     (let c0 = [];
          c1 = (if upper_var st then c0 @ ascii_uppercase else c0);
          c2 = (if lower_var st then c1 @ ascii_lowercase else c1);
          c3 = (if digits_var st then c2 @ digits else c2);
          c4 = (if symbols_var st then c3 @ symbols else c3)
      in c4)"

text \<open>
  \<^verbatim>\<open>random.choice(chars)\<close> picks \<open>chars[i]\<close> for a random index \<open>i\<close> below
  \<open>len(chars)\<close>. The random source is a parameter: \<open>rnd k\<close> is the number behind the
  \<open>k\<close>-th draw, reduced to an index, so every sequence of indices is some \<open>rnd\<close>.
  \<^verbatim>\<open>random.choice\<close> raises \<^verbatim>\<open>IndexError\<close> on an empty sequence; \<^verbatim>\<open>generate_password\<close> calls
  it after the test for an empty character set only.
\<close>

definition choice :: "string \<Rightarrow> nat \<Rightarrow> char" where
  "choice chars r = chars ! (r mod length chars)"

datatype gen_result = Rejected | Generated string | Failed exn

text \<open>
  \<^verbatim>\<open>generate_password\<close>. With no class selected it shows a warning and returns. Otherwise
  it draws \<open>range(length)\<close> characters (none when the length is zero or negative), shows
  the password and its strength, appends the entry with the current time \<open>now\<close>, saves
  the history and refreshes the list box. The result is the outcome and the state left
  behind; an exception of \<^verbatim>\<open>save_history\<close> leaves the state reached before it.
\<close>

definition generate_password :: "(nat \<Rightarrow> nat) \<Rightarrow> string \<Rightarrow> app \<Rightarrow> gen_result \<times> app" where
  "generate_password rnd now st =
     (let chars = charset st
      in if chars = [] then (Rejected, st\<lparr>dialogs := dialogs st @ [Warning]\<rparr>)
         else
           let pw = map (\<lambda>k. choice chars (rnd k)) [0..<nat (length_var st)];
               st1 = st\<lparr>password_entry := pw\<rparr>;
               st2 = st1\<lparr>strength_colour := snd (check_strength pw)\<rparr>;
               st3 = st2\<lparr>strength_label := Some (fst (check_strength pw))\<rparr>;
               st4 = st3\<lparr>history := history st3
                       @ [\<lparr>password = pw, timestamp = now, strength = fst (check_strength pw)\<rparr>]\<rparr>
           in case save_history st4 of
                Inl e \<Rightarrow> (Failed e, st4)
              | Inr st5 \<Rightarrow> (Generated pw, update_history_display st5))"

text \<open>
  The state that \<^verbatim>\<open>create_widgets\<close> leaves for a history \<open>h\<close> and a file system \<open>fs\<close>:
  length 12, the four classes selected, nothing generated yet.
\<close>

definition initial :: "entry list \<Rightarrow> (string \<rightharpoonup> fnode) \<Rightarrow> app" where
  "initial h fs =
     update_history_display
       \<lparr>length_var = 12, upper_var = True, lower_var = True, digits_var = True,
        symbols_var = True, history = h, password_entry = [], strength_label = None,
        strength_colour = Unset, history_list = [], files = fs, dialogs = []\<rparr>"

section \<open>Exporting the history\<close>

text \<open>
  \<^verbatim>\<open>pd.DataFrame(self.history).to_csv(filename, index=False)\<close> is the pandas library. The
  frame's columns are the keys of the dictionaries in the order of their first appearance,
  so a history without entries has no column. \<^verbatim>\<open>to_csv\<close> writes the row of the column names
  and then one row per entry through Python's \<^verbatim>\<open>csv\<close> writer, with \<^verbatim>\<open>os.linesep\<close> as line
  terminator and the default dialect otherwise: the fields are joined by commas; a field
  that holds a comma, a double quote or a character of the line terminator (and, where the
  writer does so, any carriage return or line feed) is enclosed in double quotes with
  every double quote inside doubled; every row ends with the line terminator.
\<close>

definition csv_special :: "runtime \<Rightarrow> nat \<Rightarrow> bool" where
  "csv_special rt c =
     (c = 44 \<or> c = 34 \<or> c \<in> set (linesep rt) \<or> (csv_quotes_cr rt \<and> (c = 10 \<or> c = 13)))"

definition csv_field :: "runtime \<Rightarrow> ustr \<Rightarrow> ustr" where
  "csv_field rt f =
     (if list_ex (csv_special rt) f
      then [34] @ concat (map (\<lambda>c. if c = 34 then [34, 34] else [c]) f) @ [34]
      else f)"

fun join :: "ustr \<Rightarrow> ustr list \<Rightarrow> ustr" where
  "join sep [] = []"
| "join sep [f] = f"
| "join sep (f # fs) = f @ sep @ join sep fs"

definition csv_row :: "runtime \<Rightarrow> ustr list \<Rightarrow> ustr" where
  "csv_row rt fs =
     (if fs = [[]] then [34, 34] else join [44] (map (csv_field rt) fs)) @ linesep rt"

definition columns :: "entry list \<Rightarrow> ustr list" where
  "columns es = (if es = [] then [] else [cps ''password'', cps ''timestamp'', cps ''strength''])"

definition cells :: "entry \<Rightarrow> ustr list" where
  "cells e = [cps (password e), cps (timestamp e), label (strength e)]"

definition to_csv :: "runtime \<Rightarrow> entry list \<Rightarrow> ustr" where
  "to_csv rt es = csv_row rt (columns es) @ concat (map (\<lambda>e. csv_row rt (cells e)) es)"

text \<open>
  \<^verbatim>\<open>export_history\<close>: \<open>filename\<close> is the answer of the file dialog, empty when the user
  cancels; then nothing happens. Otherwise the file is written and a message is shown.
\<close>

definition export_history :: "runtime \<Rightarrow> string \<Rightarrow> app \<Rightarrow> exn + app" where
  "export_history rt filename st =
     (if filename \<noteq> [] then
        (case files st filename of
           Some Denied \<Rightarrow> Inl OSError
         | _ \<Rightarrow> Inr (st\<lparr>files := (files st)(filename \<mapsto> Content (to_csv rt (history st))),
                       dialogs := dialogs st @ [Info]\<rparr>))
      else Inr st)"

text \<open>
  For stating the rows of the exported file: a field free of double quotes, carriage
  returns and line feeds is written as it is unless it holds a comma, and then between
  double quotes.
\<close>

definition quoted_if_comma :: "ustr \<Rightarrow> ustr" where
  "quoted_if_comma f = (if 44 \<in> set f then [34] @ f @ [34] else f)"

section \<open>Example states\<close>

definition zero_length :: app where
  "zero_length = (initial [] Map.empty)\<lparr>length_var := 0\<rparr>"

definition first_index :: "nat \<Rightarrow> nat" where
  "first_index k = 0"

definition no_class :: "int \<Rightarrow> app" where
  "no_class n = (initial [] Map.empty)
     \<lparr>length_var := n, upper_var := False, lower_var := False, digits_var := False, symbols_var := False\<rparr>"

definition negative_length :: app where
  "negative_length = (initial [] Map.empty)
     \<lparr>length_var := - 3, upper_var := False, lower_var := False, symbols_var := False\<rparr>"

definition spaces_and_tildes :: string where
  "spaces_and_tildes = replicate 15 CHR '' '' @ replicate 15 CHR ''~''"

definition posix :: runtime where
  "posix = \<lparr>windows = False, csv_quotes_cr = False, max_str_digits = 4300, spare_depth = 900\<rparr>"

definition posix_quoting_cr :: runtime where
  "posix_quoting_cr = posix\<lparr>csv_quotes_cr := True\<rparr>"

definition two_entries :: "entry list" where
  "two_entries =
     [\<lparr>password = ''aB3,x'', timestamp = ''2024-01-02 03:04:05'', strength = Medium\<rparr>,
      \<lparr>password = ''zz'', timestamp = ''2024-01-02 03:04:06'', strength = Weak\<rparr>]"



definition comma_entry :: entry where
  "comma_entry = \<lparr>password = ''aB3,x'', timestamp = ''2024-01-02 03:04:05'', strength = Medium\<rparr>"

definition quote_entry :: entry where
  "quote_entry = \<lparr>password = [CHR ''a'', CHR 0x22, CHR ''b''],
                   timestamp = ''2024-01-02 03:04:05'', strength = Weak\<rparr>"

definition lf_entry :: entry where
  "lf_entry = \<lparr>password = [CHR ''a'', CHR 0x0A, CHR ''b''],
                timestamp = ''2024-01-02 03:04:05'', strength = Weak\<rparr>"

definition cr_entry :: entry where
  "cr_entry = \<lparr>password = [CHR ''a'', CHR 0x0D, CHR ''b''],
                timestamp = ''2024-01-02 03:04:05'', strength = Weak\<rparr>"

section \<open>Facts about the model\<close>

subsection \<open>The strength tests on the generator's classes\<close>

text \<open>
  Every character of a class passes the test of its class and no character of the other
  classes does: on generated passwords the tests tell the four classes apart.
\<close>

lemma class_tests:
  "list_all islower ascii_lowercase"
  "list_all isupper ascii_uppercase"
  "list_all isdigit digits"
  "\<not> list_ex islower (ascii_uppercase @ digits @ symbols)"
  "\<not> list_ex isupper (ascii_lowercase @ digits @ symbols)"
  "\<not> list_ex isdigit (ascii_lowercase @ ascii_uppercase @ symbols)"
  "\<not> list_ex (\<lambda>c. c \<in> set symbols) (ascii_lowercase @ ascii_uppercase @ digits)"
  by (simp_all add: islower_def isupper_def isdigit_def ascii_lowercase_def ascii_uppercase_def
        digits_def symbols_def)

subsection \<open>Generation\<close>

lemma score_sum:
  "score pw = of_bool (12 \<le> length pw) + of_bool (\<exists>c\<in>set pw. islower c)
     + of_bool (\<exists>c\<in>set pw. isupper c) + of_bool (\<exists>c\<in>set pw. isdigit c)
     + of_bool (\<exists>c\<in>set pw. c \<in> set symbols)"
  by (simp add: score_def Let_def list_ex_iff)

lemma charset_eq:
  "charset st = (if upper_var st then ascii_uppercase else [])
     @ (if lower_var st then ascii_lowercase else [])
     @ (if digits_var st then digits else [])
     @ (if symbols_var st then symbols else [])"
  by (simp add: charset_def Let_def)

lemma charset_empty_iff:
  "charset st = [] \<longleftrightarrow> \<not> (upper_var st \<or> lower_var st \<or> digits_var st \<or> symbols_var st)"
  by (simp add: charset_eq ascii_uppercase_def ascii_lowercase_def digits_def symbols_def)

lemma choice_in: "chars \<noteq> [] \<Longrightarrow> choice chars r \<in> set chars"
  by (simp add: choice_def)

lemma save_history_cases:
  "save_history st = (if files st history_path = Some Denied then Inl OSError
     else Inr (st\<lparr>files := (files st)(history_path \<mapsto> Content (dump_history (history st)))\<rparr>))"
  by (simp add: save_history_def split: option.splits fnode.splits)

lemma generate_password_rejected:
  "charset st = [] \<Longrightarrow> generate_password rnd now st = (Rejected, st\<lparr>dialogs := dialogs st @ [Warning]\<rparr>)"
  by (simp add: generate_password_def)

lemma generate_password_accepted:
  assumes "charset st \<noteq> []"
  shows "generate_password rnd now st =
     (let pw = map (\<lambda>k. choice (charset st) (rnd k)) [0..<nat (length_var st)];
          e = \<lparr>password = pw, timestamp = now, strength = fst (check_strength pw)\<rparr>;
          st4 = st\<lparr>password_entry := pw, strength_colour := snd (check_strength pw),
                    strength_label := Some (fst (check_strength pw)),
                    history := history st @ [e]\<rparr>
      in if files st history_path = Some Denied then (Failed OSError, st4)
         else (Generated pw,
               update_history_display
                 (st4\<lparr>files := (files st)(history_path \<mapsto> Content (dump_history (history st @ [e])))\<rparr>)))"
  using assms by (simp add: generate_password_def Let_def save_history_cases)

lemma initial_simps:
  "length_var (initial h fs) = 12" "upper_var (initial h fs)" "lower_var (initial h fs)"
  "digits_var (initial h fs)" "symbols_var (initial h fs)" "history (initial h fs) = h"
  "files (initial h fs) = fs" "password_entry (initial h fs) = []"
  by (simp_all add: initial_def update_history_display_def)

lemma generate_password_constant_draw:
  assumes "charset st \<noteq> []" "files st history_path \<noteq> Some Denied"
  shows "fst (generate_password (\<lambda>k. r) now st)
           = Generated (replicate (nat (length_var st)) (choice (charset st) r))"
    and "password_entry (snd (generate_password (\<lambda>k. r) now st))
           = replicate (nat (length_var st)) (choice (charset st) r)"
    and "history (snd (generate_password (\<lambda>k. r) now st))
           = history st @ [\<lparr>password = replicate (nat (length_var st)) (choice (charset st) r),
                timestamp = now,
                strength = fst (check_strength (replicate (nat (length_var st)) (choice (charset st) r)))\<rparr>]"
  using assms(2)
  by (simp_all add: generate_password_accepted [OF assms(1)] Let_def map_replicate_const
        update_history_display_def)

lemma first_choice: "choice (charset (initial h fs)) 0 = CHR ''A''"
  by (simp add: choice_def charset_eq initial_simps ascii_uppercase_def)

lemma charset_initial: "charset (initial h fs) \<noteq> []"
  by (simp add: charset_empty_iff initial_simps)

lemma twelve_A: "replicate 12 CHR ''A'' = ''AAAAAAAAAAAA''"
  by (simp add: numeral_eq_Suc)

lemma check_strength_twelve_A: "check_strength ''AAAAAAAAAAAA'' = (Weak, Red)"
  by (simp add: check_strength_def score_def islower_def isupper_def isdigit_def symbols_def)

lemma upt_12: "[0..<12] = [0, 1, 2, 3, 4, 5, 6, 7, 8, 9, 10, 11 :: nat]"
  by code_simp

lemma sample_draws:
  "map (\<lambda>k. choice (charset (initial h fs)) (7 * k + 3)) [0..<12] = ''DKRYfmt07%+|''"
  by (simp add: upt_12 choice_def charset_eq initial_simps ascii_uppercase_def
        ascii_lowercase_def digits_def symbols_def)

lemma sample_generation:
  "fst (generate_password (\<lambda>k. 7 * k + 3) now (initial [] Map.empty)) = Generated ''DKRYfmt07%+|''"
  using sample_draws [of "[]" Map.empty]
  by (simp add: generate_password_accepted [OF charset_initial] Let_def initial_simps)

subsection \<open>Escapes decode to what was encoded\<close>

text \<open>
  The equations of the three value functions rewrite a call into its whole body; they are
  applied by hand. A code point is \<open>scalar\<close> when it is a Unicode scalar value, that is
  not a surrogate: the encoder's escape of such a code point is read back as that code
  point.
\<close>

declare scan_once.simps [simp del] array_items.simps [simp del] object_items.simps [simp del]

definition scalar :: "nat \<Rightarrow> bool" where
  "scalar c = (c < 55296 \<or> (57344 \<le> c \<and> c < 1114112))"

lemma hexval_hexdigit: "d < 16 \<Longrightarrow> hexval (hexdigit d) = Some d"
  by (simp add: hexval_def hexdigit_def)

lemma hex_split:
  fixes n :: nat
  assumes "n < 65536"
  shows "((n div 4096 mod 16 * 16 + n div 256 mod 16) * 16 + n div 16 mod 16) * 16 + n mod 16 = n"
proof -
  define q1 where "q1 = n div 16"
  define q2 where "q2 = q1 div 16"
  define q3 where "q3 = q2 div 16"
  have e2: "n div 256 = q2"
    using div_mult2_eq [of n 16 16] by (simp add: q1_def q2_def)
  have e3: "n div 4096 = q3"
    using div_mult2_eq [of n 256 16] by (simp add: e2 q3_def)
  have s3: "q3 < 16" using assms e3 by auto
  have d1: "n = q1 * 16 + n mod 16" by (simp add: q1_def)
  have d2: "q1 = q2 * 16 + q1 mod 16" by (simp add: q2_def)
  have d3: "q2 = q3 * 16 + q2 mod 16" by (simp add: q3_def)
  have "((q3 mod 16 * 16 + q2 mod 16) * 16 + q1 mod 16) * 16 + n mod 16 = n"
    using s3 d1 d2 d3 by simp
  then show ?thesis by (simp only: e2 e3 q1_def [symmetric])
qed

lemma hex4_digits:
  assumes "n < 65536"
  shows "hex4 (hexdigit (n div 4096 mod 16) # hexdigit (n div 256 mod 16)
               # hexdigit (n div 16 mod 16) # hexdigit (n mod 16) # r) = Some n"
proof -
  have h: "hexval (hexdigit (n div 4096 mod 16)) = Some (n div 4096 mod 16)"
    "hexval (hexdigit (n div 256 mod 16)) = Some (n div 256 mod 16)"
    "hexval (hexdigit (n div 16 mod 16)) = Some (n div 16 mod 16)"
    "hexval (hexdigit (n mod 16)) = Some (n mod 16)"
    by (rule hexval_hexdigit, simp)+
  show ?thesis
    by (simp only: hex4.simps h prod.case option.case hex_split [OF assms])
qed

lemma hex4_hexdigits4: "n < 65536 \<Longrightarrow> hex4 (hexdigits4 n @ r) = Some n"
  unfolding hexdigits4_def append_Cons append_Nil by (rule hex4_digits)

lemma length_hexdigits4 [simp]: "length (hexdigits4 n) = 4"
  by (simp add: hexdigits4_def)

lemma length_uescape [simp]: "length (uescape n) = 6"
  by (simp add: uescape_def)

lemma scanstring_uescape_bmp:
  assumes "n < 65536" "\<not> (55296 \<le> n \<and> n \<le> 56319)"
  shows "scanstring acc (uescape n @ r) = scanstring (acc @ [n]) r"
  using assms by (auto simp: uescape_def hex4_hexdigits4 simp del: hex4.simps)

lemma low_escape_uescape:
  assumes "56320 \<le> n" "n \<le> 57343"
  shows "low_escape (uescape n @ r) = Some n"
  using assms by (simp add: low_escape_def uescape_def hex4_hexdigits4 del: hex4.simps)

lemma scanstring_uescape_pair:
  assumes "55296 \<le> hi" "hi \<le> 56319" "56320 \<le> lo" "lo \<le> 57343"
  shows "scanstring acc (uescape hi @ uescape lo @ r)
           = scanstring (acc @ [65536 + (hi - 55296) * 1024 + (lo - 56320)]) r"
proof -
  have d10: "drop 10 (hexdigits4 hi @ uescape lo @ r) = r"
    and d4: "drop 4 (hexdigits4 hi @ uescape lo @ r) = uescape lo @ r"
    by simp_all
  have h: "hex4 (hexdigits4 hi @ uescape lo @ r) = Some hi"
    using assms by (intro hex4_hexdigits4) simp
  show ?thesis
    using assms
    by (simp add: uescape_def [of hi] h d10 d4 low_escape_uescape del: hex4.simps drop_append)
qed

lemma scanstring_esc_char:
  assumes "scalar c"
  shows "scanstring acc (esc_char c @ r) = scanstring (acc @ [c]) r"
proof -
  consider (short) "c \<in> {34, 92, 10, 13, 9, 12, 8}"
    | (plain) "c \<notin> {34, 92, 10, 13, 9, 12, 8}" "32 \<le> c" "c \<le> 126"
    | (bmp) "c \<notin> {34, 92, 10, 13, 9, 12, 8}" "\<not> (32 \<le> c \<and> c \<le> 126)" "c < 65536"
    | (astral) "65536 \<le> c"
    by fastforce
  then show ?thesis
  proof cases
    case short
    then show ?thesis by (auto simp: esc_char_def backslash_def)
  next
    case plain
    then show ?thesis by (simp add: esc_char_def)
  next
    case bmp
    have ns: "\<not> (55296 \<le> c \<and> c \<le> 56319)" using assms bmp by (auto simp: scalar_def)
    have e: "esc_char c = uescape c" using bmp by (auto simp: esc_char_def)
    show ?thesis unfolding e using bmp(3) ns by (rule scanstring_uescape_bmp)
  next
    case astral
    define v where "v = c - 65536"
    have vb: "v < 1048576" using assms astral by (auto simp: scalar_def v_def)
    define hi where "hi = 55296 + v div 1024 mod 1024"
    define lo where "lo = 56320 + v mod 1024"
    have hib: "55296 \<le> hi" "hi \<le> 56319" by (auto simp: hi_def)
    have lob: "56320 \<le> lo" "lo \<le> 57343" by (auto simp: lo_def)
    have e: "esc_char c = uescape hi @ uescape lo"
      using astral by (auto simp: esc_char_def hi_def lo_def v_def)
    have dv: "v div 1024 mod 1024 = v div 1024" using vb by simp
    have rejoin: "65536 + (hi - 55296) * 1024 + (lo - 56320) = c"
      using astral by (simp add: hi_def lo_def dv) (simp add: v_def)
    show ?thesis
      by (simp only: e append_assoc scanstring_uescape_pair [OF hib lob] rejoin)
  qed
qed

lemma scanstring_escaped:
  "list_all scalar s \<Longrightarrow> scanstring acc (concat (map esc_char s) @ 34 # r) = Some (acc @ s, r)"
proof (induction s arbitrary: acc)
  case Nil
  then show ?case by simp
next
  case (Cons c s)
  then show ?case by (simp add: scanstring_esc_char)
qed

lemma scan_once_dump_str:
  "list_all scalar s \<Longrightarrow> scan_once mx d (dump_str s @ r) = Inr (JStr s, r)"
  by (simp add: scan_once.simps dump_str_def scanstring_escaped)

subsection \<open>The decoder consumes what it reads\<close>

lemma int_part_shorter: "int_part s = Some (x, r) \<Longrightarrow> length r < length s"
proof -
  have d: "length (dropWhile is_digit t) \<le> length t" for t
    by (rule length_dropWhile_le)
  assume a: "int_part s = Some (x, r)"
  show ?thesis
  proof (cases "take 1 s = [45]")
    case True
    then obtain t where s: "s = 45 # t" by (cases s) auto
    with a d [of "tl t"] show ?thesis
      by (cases t) (auto simp: int_part_def Let_def split: if_splits intro: le_imp_less_Suc less_SucI)
  next
    case False
    with a d [of "tl s"] show ?thesis
      by (cases s) (auto simp: int_part_def Let_def split: if_splits intro: le_imp_less_Suc)
  qed
qed

lemma frac_part_le: "length (snd (frac_part s)) \<le> length s"
  using length_dropWhile_le [of is_digit "tl s"]
  by (cases s) (auto simp: frac_part_def)

lemma exp_sign_le: "length (snd (exp_sign s)) \<le> length s"
  by (cases s) (auto simp: exp_sign_def)

lemma exp_part_le: "length (snd (exp_part s)) \<le> length s"
proof (cases s)
  case Nil
  then show ?thesis by (simp add: exp_part_def)
next
  case (Cons e r)
  have "length (dropWhile is_digit (snd (exp_sign r))) \<le> length (snd (exp_sign r))"
    by (rule length_dropWhile_le)
  with exp_sign_le [of r] Cons show ?thesis
    by (auto simp: exp_part_def)
qed

lemma match_number_shorter: "match_number s = Some (i, fe, r) \<Longrightarrow> length r < length s"
proof -
  assume "match_number s = Some (i, fe, r)"
  then obtain t where i: "int_part s = Some (i, t)" and r: "r = snd (exp_part (snd (frac_part t)))"
    by (auto simp: match_number_def split: option.splits)
  have "length r \<le> length t"
    unfolding r using exp_part_le [of "snd (frac_part t)"] frac_part_le [of t] by simp
  with int_part_shorter [OF i] show ?thesis by simp
qed

lemma scan_shorter_all:
  "(\<forall>mx d v r. scan_once mx d s = Inr (v, r) \<longrightarrow> length r < length s)
   \<and> (\<forall>mx d acc v r. array_items mx d acc s = Inr (v, r) \<longrightarrow> length r < length s)
   \<and> (\<forall>mx d acc v r. object_items mx d acc s = Inr (v, r) \<longrightarrow> length r < length s)"
proof (induction s rule: length_induct)
  case (1 s)
  have ih_arr: "array_items mx d acc t = Inr (v, r) \<Longrightarrow> length t < length s \<Longrightarrow> length r < length t"
    for mx d acc t v r using 1 by blast
  have ih_obj: "object_items mx d acc t = Inr (v, r) \<Longrightarrow> length t < length s \<Longrightarrow> length r < length t"
    for mx d acc t v r using 1 by blast
  have ih_scan: "scan_once mx d t = Inr (v, r) \<Longrightarrow> length t < length s \<Longrightarrow> length r < length t"
    for mx d t v r using 1 by blast
  have scan: "length r < length s" if a: "scan_once mx d s = Inr (v, r)" for mx d v r
  proof -
    from a obtain c t where s: "s = c # t" by (cases s) (auto simp: scan_once.simps)
    have ws: "length (skip_ws t) \<le> length t" by (rule length_skip_ws)
    consider (str) "c = 34" | (obj) "c = 123" | (arr) "c = 91"
      | (other) "c \<noteq> 34" "c \<noteq> 123" "c \<noteq> 91"
      by blast
    then show ?thesis
    proof cases
      case str
      with a s show ?thesis
        by (auto simp: scan_once.simps split: option.splits dest: scanstring_shorter)
    next
      case obj
      from a s obj have d0: "d \<noteq> 0" by (auto simp: scan_once.simps split: if_splits)
      from a s obj d0 obtain q t' where q: "skip_ws t = q # t'"
        by (cases "skip_ws t") (auto simp: scan_once.simps)
      show ?thesis
      proof (cases "q = 125")
        case True
        with a s obj d0 q ws show ?thesis by (auto simp: scan_once.simps)
      next
        case False
        with a s obj d0 q have o: "object_items mx (d - 1) [] t' = Inr (v, r)"
          by (auto simp: scan_once.simps split: if_splits)
        have "length t' < length s" using ws q s by simp
        from ih_obj [OF o this] ws q s show ?thesis by simp
      qed
    next
      case arr
      from a s arr have d0: "d \<noteq> 0" by (auto simp: scan_once.simps split: if_splits)
      from a s arr d0 obtain q t' where q: "skip_ws t = q # t'"
        by (cases "skip_ws t") (auto simp: scan_once.simps)
      show ?thesis
      proof (cases "q = 93")
        case True
        with a s arr d0 q ws show ?thesis by (auto simp: scan_once.simps)
      next
        case False
        with a s arr d0 q have o: "array_items mx (d - 1) [] (q # t') = Inr (v, r)"
          by (auto simp: scan_once.simps split: if_splits)
        have "length (q # t') < length s" using ws q s by simp
        from ih_arr [OF o this] ws q s show ?thesis by simp
      qed
    next
      case other
      have dr: "0 < n \<Longrightarrow> length (drop n s) < length s" for n using s by simp
      from a s other show ?thesis
        using dr match_number_shorter [of s]
        by (auto simp: scan_once.simps split: if_splits option.splits)
    qed
  qed
  have arr: "length r < length s" if a: "array_items mx d acc s = Inr (v, r)" for mx d acc v r
  proof -
    from a obtain x t where p: "scan_once mx d s = Inr (x, t)"
      by (subst (asm) array_items.simps) (auto split: sum.splits)
    from a p have lt: "length t < length s"
      by (subst (asm) array_items.simps) (auto split: if_splits)
    from a p lt obtain q t' where q: "skip_ws t = q # t'"
      by (subst (asm) array_items.simps) (cases "skip_ws t", auto)
    have ws: "length (skip_ws t) \<le> length t" "length (skip_ws t') \<le> length t'"
      by (rule length_skip_ws)+
    show ?thesis
    proof (cases "q = 93")
      case True
      with a p lt q ws show ?thesis
        by (subst (asm) array_items.simps) auto
    next
      case False
      with a p lt q have o: "array_items mx d (acc @ [x]) (skip_ws t') = Inr (v, r)"
        by (subst (asm) array_items.simps) (auto split: if_splits)
      have "length (skip_ws t') < length s" using ws q lt by simp
      from ih_arr [OF o this] ws q lt show ?thesis by simp
    qed
  qed
  have obj: "length r < length s" if a: "object_items mx d acc s = Inr (v, r)" for mx d acc v r
  proof -
    from a obtain k r1 where k: "scanstring [] s = Some (k, r1)"
      by (subst (asm) object_items.simps) (auto split: option.splits)
    from a k obtain c r2 where c: "skip_ws r1 = c # r2"
      by (subst (asm) object_items.simps) (cases "skip_ws r1", auto)
    from a k c have c58: "c = 58"
      by (subst (asm) object_items.simps) (auto split: if_splits)
    from a k c c58 obtain x r3 where p: "scan_once mx d (skip_ws r2) = Inr (x, r3)"
      by (subst (asm) object_items.simps) (auto split: sum.splits)
    from a k c c58 p have lt: "length r3 < length (skip_ws r2)"
      by (subst (asm) object_items.simps) (auto split: if_splits)
    from a k c c58 p lt obtain q r4 where q: "skip_ws r3 = q # r4"
      by (subst (asm) object_items.simps) (cases "skip_ws r3", auto)
    have ws: "length (skip_ws r1) \<le> length r1" "length (skip_ws r2) \<le> length r2"
      "length (skip_ws r3) \<le> length r3" "length (skip_ws r4) \<le> length r4"
      by (rule length_skip_ws)+
    have l1: "length r1 < length s" using k by (rule scanstring_shorter)
    show ?thesis
    proof (cases "q = 125")
      case True
      with a k c c58 p lt q ws l1 show ?thesis
        by (subst (asm) object_items.simps) auto
    next
      case False
      with a k c c58 p lt q have q44: "q = 44"
        by (subst (asm) object_items.simps) (auto split: if_splits)
      from a k c c58 p lt q q44 obtain q' r5 where q': "skip_ws r4 = q' # r5"
        by (subst (asm) object_items.simps) (cases "skip_ws r4", auto)
      from a k c c58 p lt q q44 q'
      have o: "object_items mx d (AList.update k x acc) r5 = Inr (v, r)"
        by (subst (asm) object_items.simps) (auto split: if_splits)
      have "length r5 < length s" using ws l1 c q q' lt by simp
      from ih_obj [OF o this] ws l1 c q q' lt show ?thesis by simp
    qed
  qed
  from scan arr obj show ?case by blast
qed

lemma scan_shorter: "scan_once mx d s = Inr (v, r) \<Longrightarrow> length r < length s"
  using scan_shorter_all [of s] by blast

lemma array_items_unfold:
  "array_items mx d acc s =
     (case scan_once mx d s of
        Inl e \<Rightarrow> Inl e
      | Inr (v, r) \<Rightarrow>
          (case skip_ws r of
             [] \<Rightarrow> Inl JSONDecodeError
           | q # r' \<Rightarrow>
               if q = 93 then Inr (JArr (acc @ [v]), r')
               else if q = 44 then array_items mx d (acc @ [v]) (skip_ws r')
               else Inl JSONDecodeError))"
  by (subst array_items.simps) (auto split: sum.splits dest: scan_shorter)

lemma object_items_unfold:
  "object_items mx d acc s =
     (case scanstring [] s of
        None \<Rightarrow> Inl JSONDecodeError
      | Some (k, r1) \<Rightarrow>
          (case skip_ws r1 of
             [] \<Rightarrow> Inl JSONDecodeError
           | c # r2 \<Rightarrow>
               if c = 58 then
                 (case scan_once mx d (skip_ws r2) of
                    Inl e \<Rightarrow> Inl e
                  | Inr (v, r3) \<Rightarrow>
                      (case skip_ws r3 of
                         [] \<Rightarrow> Inl JSONDecodeError
                       | q # r4 \<Rightarrow>
                           if q = 125 then Inr (JObj (AList.update k v acc), r4)
                           else if q = 44 then
                             (case skip_ws r4 of
                                [] \<Rightarrow> Inl JSONDecodeError
                              | q' # r5 \<Rightarrow>
                                  if q' = 34 then object_items mx d (AList.update k v acc) r5
                                  else Inl JSONDecodeError)
                           else Inl JSONDecodeError))
               else Inl JSONDecodeError))"
  by (subst object_items.simps)
     (auto split: option.splits list.splits sum.splits dest: scan_shorter)

subsection \<open>Decoding a dumped history\<close>

lemma scalar_cps: "list_all scalar (cps s)"
proof -
  have "of_char c < (55296 :: nat)" for c :: char
    by (rule less_trans [OF nat_of_char_less_256]) simp
  then show ?thesis by (simp add: cps_def list_all_iff scalar_def)
qed

lemma scalar_label: "list_all scalar (label s)"
  by (cases s) (simp_all add: scalar_def)

lemma skip_ws_indent: "\<not> is_ws c \<Longrightarrow> skip_ws (indent n @ c # r) = c # r"
  by (simp add: skip_ws_def indent_def is_ws_def dropWhile_append)

lemma skip_ws_Cons: "skip_ws (c # r) = (if is_ws c then skip_ws r else c # r)"
  by (simp add: skip_ws_def)

lemma dump_str_Cons: "dump_str s @ r = 34 # concat (map esc_char s) @ 34 # r"
  by (simp add: dump_str_def)

lemma object_items_more:
  assumes "list_all scalar k" "list_all scalar x"
  shows "object_items mx d acc (concat (map esc_char k) @ 34 # 58 # 32 # dump_str x
                            @ 44 # indent n @ 34 # r)
           = object_items mx d (AList.update k (JStr x) acc) r"
proof -
  have v: "scan_once mx d (dump_str x @ 44 # indent n @ 34 # r) = Inr (JStr x, 44 # indent n @ 34 # r)"
    using scan_once_dump_str [OF assms(2), of mx d] by simp
  have w: "skip_ws (indent n @ 34 # r) = 34 # r" by (rule skip_ws_indent) (simp add: is_ws_def)
  have d: "skip_ws (dump_str x @ 44 # indent n @ 34 # r) = dump_str x @ 44 # indent n @ 34 # r"
    by (simp add: dump_str_def skip_ws_Cons is_ws_def)
  show ?thesis
    apply (subst object_items_unfold)
    apply (simp only: scanstring_escaped [OF assms(1)] append_Nil option.case prod.case)
    apply (simp add: skip_ws_Cons is_ws_def d v w)
    done
qed

lemma object_items_last:
  assumes "list_all scalar k" "list_all scalar x"
  shows "object_items mx d acc (concat (map esc_char k) @ 34 # 58 # 32 # dump_str x
                            @ indent n @ 125 # r)
           = Inr (JObj (AList.update k (JStr x) acc), r)"
proof -
  have v: "scan_once mx d (dump_str x @ indent n @ 125 # r) = Inr (JStr x, indent n @ 125 # r)"
    using scan_once_dump_str [OF assms(2), of mx d] by simp
  have w: "skip_ws (indent n @ 125 # r) = 125 # r" by (rule skip_ws_indent) (simp add: is_ws_def)
  have d: "skip_ws (dump_str x @ indent n @ 125 # r) = dump_str x @ indent n @ 125 # r"
    by (simp add: dump_str_def skip_ws_Cons is_ws_def)
  show ?thesis
    apply (subst object_items_unfold)
    apply (simp only: scanstring_escaped [OF assms(1)] append_Nil option.case prod.case)
    apply (simp add: skip_ws_Cons is_ws_def d v w)
    done
qed

lemma keys_distinct:
  "cps ''password'' \<noteq> cps ''timestamp''" "cps ''password'' \<noteq> cps ''strength''"
  "cps ''timestamp'' \<noteq> cps ''strength''"
  by (simp_all add: cps_def)

lemma scan_once_dump_entry:
  "scan_once mx (Suc d) (dump_entry e @ r) = Inr (entry_json e, r)"
proof -
  have w: "skip_ws (indent 4 @ 34 # t) = 34 # t" for t
    by (rule skip_ws_indent) (simp add: is_ws_def)
  have shape: "dump_entry e @ r =
     123 # indent 4 @ 34 # concat (map esc_char (cps ''password'')) @ 34 # 58 # 32
       # dump_str (cps (password e)) @ 44 # indent 4 @ 34
       # concat (map esc_char (cps ''timestamp'')) @ 34 # 58 # 32
       # dump_str (cps (timestamp e)) @ 44 # indent 4 @ 34
       # concat (map esc_char (cps ''strength'')) @ 34 # 58 # 32
       # dump_str (label (strength e)) @ indent 2 @ 125 # r"
    by (simp add: dump_entry_def dump_str_def [of "cps ''password''"]
          dump_str_def [of "cps ''timestamp''"] dump_str_def [of "cps ''strength''"])
  show ?thesis
    apply (subst shape)
    apply (subst scan_once.simps)
    apply (simp only: list.case w)
    apply (simp add: object_items_more object_items_last scalar_cps scalar_label keys_distinct
             entry_json_def)
    done
qed

lemma array_items_dump:
  "es \<noteq> [] \<Longrightarrow>
   array_items mx (Suc d) acc (skip_ws (dump_items es @ indent 0 @ 93 # r))
     = Inr (JArr (acc @ map entry_json es), r)"
proof (induction es arbitrary: acc rule: dump_items.induct)
  case 1
  then show ?case by simp
next
  case (2 e)
  have b: "dump_entry e @ t = 123 # tl (dump_entry e) @ t" for t
    by (simp add: dump_entry_def)
  have s: "skip_ws (indent 2 @ dump_entry e @ t) = dump_entry e @ t" for t
    using skip_ws_indent [of 123 2 "tl (dump_entry e) @ t"] by (simp add: is_ws_def b [symmetric])
  show ?case
    apply (simp only: dump_items.simps append_assoc s)
    apply (subst array_items_unfold)
    apply (simp add: scan_once_dump_entry indent_def skip_ws_Cons is_ws_def)
    done
next
  case (3 e e' es)
  have b: "dump_entry e @ t = 123 # tl (dump_entry e) @ t" for t
    by (simp add: dump_entry_def)
  have s: "skip_ws (indent 2 @ dump_entry e @ t) = dump_entry e @ t" for t
    using skip_ws_indent [of 123 2 "tl (dump_entry e) @ t"] by (simp add: is_ws_def b [symmetric])
  have ih: "array_items mx (Suc d) (acc @ [entry_json e])
              (skip_ws (dump_items (e' # es) @ indent 0 @ 93 # r))
     = Inr (JArr ((acc @ [entry_json e]) @ map entry_json (e' # es)), r)"
    by (rule "3.IH") simp
  show ?case
    apply (simp only: dump_items.simps(3) append_assoc s append_Cons append_Nil)
    apply (subst array_items_unfold)
    apply (simp add: scan_once_dump_entry skip_ws_Cons is_ws_def del: dump_items.simps)
    apply (simp only: ih [simplified append_assoc])
    apply simp
    done
qed

lemma json_loads_dump_history: "json_loads rt (dump_history es) = Inr (store_json es)"
proof (cases es)
  case Nil
  then show ?thesis
    by (simp add: json_loads_def dump_history_def store_json_def scan_once.simps skip_ws_def
          is_ws_def)
next
  case (Cons e es')
  have a: "array_items (max_str_digits rt) (Suc (spare_depth rt)) []
             (skip_ws (dump_items es @ indent 0 @ 93 # []))
             = Inr (JArr ([] @ map entry_json es), [])"
    by (rule array_items_dump) (simp add: Cons)
  have b: "dump_entry e @ t = 123 # tl (dump_entry e) @ t" for t
    by (simp add: dump_entry_def)
  have "dump_items es = indent 2 @ 123 # tl (dump_entry e) @ (if es' = [] then [] else 44 # dump_items es')"
    unfolding Cons using b [of "[]"] b [of "44 # dump_items es'"] by (cases es') simp_all
  then obtain t where t: "dump_items es = indent 2 @ 123 # t" ..
  have sk: "skip_ws (dump_items es @ indent 0 @ [93]) = 123 # t @ indent 0 @ [93]"
    unfolding t using skip_ws_indent [of 123 2 "t @ indent 0 @ [93]"] by (simp add: is_ws_def)
  have p: "scan_once (max_str_digits rt) (Suc (Suc (spare_depth rt)))
             (91 # dump_items es @ indent 0 @ [93]) = Inr (store_json es, [])"
    apply (subst scan_once.simps)
    apply (simp only: list.case sk)
    apply (simp add: sk [symmetric] a store_json_def)
    done
  have ne: "es \<noteq> []" by (simp add: Cons)
  show ?thesis
    using ne by (simp add: json_loads_def dump_history_def skip_ws_Cons is_ws_def p)
      (simp add: skip_ws_def)
qed

lemma load_after_save:
  assumes "save_history st = Inr st'"
  shows "load_history rt (files st') = Inr (store_json (history st))"
  using assms
  by (auto simp: save_history_cases load_history_def json_loads_dump_history split: if_splits)

lemma load_after_generate:
  assumes "fst (generate_password rnd now st) = Generated pw"
  shows "load_history rt (files (snd (generate_password rnd now st)))
           = Inr (store_json (history st
                    @ [\<lparr>password = pw, timestamp = now, strength = fst (check_strength pw)\<rparr>]))"
proof (cases "charset st = []")
  case True
  with assms show ?thesis by (simp add: generate_password_rejected)
next
  case False
  with assms show ?thesis
    by (auto simp: generate_password_accepted [OF False] Let_def update_history_display_def
          load_history_def json_loads_dump_history split: if_splits)
qed

lemma cps_inj: "cps a = cps b \<Longrightarrow> a = b"
  by (simp add: cps_def inj_map_eq_map [OF inj_of_char])

lemma label_inj: "label a = label b \<Longrightarrow> a = b"
  by (cases a; cases b) simp_all

lemma entry_json_inj: "entry_json a = entry_json b \<Longrightarrow> a = b"
  by (cases a; cases b) (auto simp: entry_json_def dest: cps_inj label_inj)

lemma store_json_inj: "store_json a = store_json b \<Longrightarrow> a = b"
proof (induction a arbitrary: b)
  case Nil
  then show ?case by (simp add: store_json_def)
next
  case (Cons x a)
  then show ?case by (cases b) (auto simp: store_json_def dest: entry_json_inj)
qed

subsection \<open>Rows of the exported file\<close>

lemma linesep_cases: "linesep rt = [10] \<or> linesep rt = [13, 10]"
  by (simp add: linesep_def)

lemma count_linesep: "count_list (linesep rt) 10 = 1"
  by (simp add: linesep_def)

lemma count_list_append: "count_list (xs @ ys) a = count_list xs a + count_list ys a"
  by (induction xs) auto

lemma count_list_absent: "a \<notin> set xs \<Longrightarrow> count_list xs a = 0"
  by (induction xs) auto

lemma count_rows:
  "\<forall>r\<in>set rows. 10 \<notin> set r \<Longrightarrow>
   count_list (concat (map (\<lambda>r. r @ linesep rt) rows)) 10 = length rows"
  by (induction rows) (simp_all add: count_list_append count_list_absent count_linesep)

lemma undoubled: "34 \<notin> set f \<Longrightarrow> concat (map (\<lambda>c. if c = 34 then [34, 34] else [c]) f) = f"
  by (induction f) auto

lemma csv_field_safe:
  assumes "34 \<notin> set f" "13 \<notin> set f" "10 \<notin> set f"
  shows "csv_field rt f = quoted_if_comma f"
proof -
  have "csv_special rt c = (c = 44)" if "c \<in> set f" for c
    using that assms linesep_cases [of rt] by (auto simp: csv_special_def)
  then have "list_ex (csv_special rt) f = (44 \<in> set f)"
    by (auto simp: list_ex_iff)
  then show ?thesis
    by (simp add: csv_field_def quoted_if_comma_def undoubled [OF assms(1)])
qed

lemma label_safe: "34 \<notin> set (label s)" "13 \<notin> set (label s)" "10 \<notin> set (label s)"
  "44 \<notin> set (label s)"
  by (cases s; simp)+

lemma csv_field_label: "csv_field rt (label s) = label s"
  by (simp add: csv_field_safe label_safe quoted_if_comma_def)

lemma header_row:
  "csv_row rt [cps ''password'', cps ''timestamp'', cps ''strength'']
     = cps ''password,timestamp,strength'' @ linesep rt"
proof -
  have "csv_field rt (cps ''password'') = cps ''password''"
    "csv_field rt (cps ''timestamp'') = cps ''timestamp''"
    "csv_field rt (cps ''strength'') = cps ''strength''"
    by (simp_all add: csv_field_safe quoted_if_comma_def cps_def)
  then show ?thesis by (simp add: csv_row_def cps_def)
qed

definition safe_field :: "string \<Rightarrow> bool" where
  "safe_field s = (34 \<notin> set (cps s) \<and> 13 \<notin> set (cps s) \<and> 10 \<notin> set (cps s))"

definition csv_line :: "entry \<Rightarrow> ustr" where
  "csv_line e = quoted_if_comma (cps (password e)) @ [44] @ quoted_if_comma (cps (timestamp e))
                @ [44] @ label (strength e)"

lemma cells_row:
  assumes "safe_field (password e)" "safe_field (timestamp e)"
  shows "csv_row rt (cells e) = csv_line e @ linesep rt"
  using assms
  by (simp add: csv_row_def cells_def csv_line_def csv_field_label csv_field_safe safe_field_def)

lemma rows_of_entries:
  "\<forall>e\<in>set es. safe_field (password e) \<and> safe_field (timestamp e) \<Longrightarrow>
   concat (map (\<lambda>e. csv_row rt (cells e)) es) = concat (map (\<lambda>r. r @ linesep rt) (map csv_line es))"
  by (induction es) (simp_all add: cells_row)

lemma to_csv_nonempty:
  assumes "es \<noteq> []" "\<forall>e\<in>set es. safe_field (password e) \<and> safe_field (timestamp e)"
  shows "to_csv rt es
           = concat (map (\<lambda>r. r @ linesep rt) (cps ''password,timestamp,strength'' # map csv_line es))"
  using assms(1) rows_of_entries [OF assms(2), of rt]
  by (simp add: to_csv_def columns_def header_row)

lemma set_quoted_if_comma: "set (quoted_if_comma f) \<subseteq> insert 34 (set f)"
  by (auto simp: quoted_if_comma_def)

lemma csv_line_no_lf:
  assumes "safe_field (password e)" "safe_field (timestamp e)"
  shows "10 \<notin> set (csv_line e)"
  using assms set_quoted_if_comma [of "cps (password e)"] set_quoted_if_comma [of "cps (timestamp e)"]
    label_safe(3) [of "strength e"]
  by (auto simp: csv_line_def safe_field_def)

lemma posix_simps:
  "linesep posix = [10]" "linesep posix_quoting_cr = [10]"
  "csv_quotes_cr posix = False" "csv_quotes_cr posix_quoting_cr = True"
  "max_str_digits posix = 4300" "spare_depth posix = 900"
  by (simp_all add: posix_def posix_quoting_cr_def linesep_def)

lemma cr_bare_on_older_writer:
  "to_csv posix [cr_entry]
     = cps ''password,timestamp,strength'' @ [10]
       @ [97, 13, 98] @ cps '',2024-01-02 03:04:05,'' @ label Weak @ [10]"
  by (simp add: to_csv_def columns_def csv_row_def cells_def csv_field_def csv_special_def
        posix_simps cr_entry_def cps_def)

subsection \<open>The decoder on sample texts\<close>

lemma json_loads_accepts:
  "json_loads posix (cps '' [] '') = Inr (JArr [])"
  "json_loads posix (cps ''{\"a\":1,\"a\":2}'') = Inr (JObj [(cps ''a'', JNum (cps ''2''))])"
  "json_loads posix (cps ''[1e5, -0, null, NaN]'')
     = Inr (JArr [JNum (cps ''1e5''), JNum (cps ''-0''), JNull, JNum (cps ''NaN'')])"
  "json_loads posix (cps ''{\"a\": [1, true]}'')
     = Inr (JObj [(cps ''a'', JArr [JNum (cps ''1''), JBool True])])"
  by code_simp+

lemma json_loads_rejects:
  "json_loads posix [] = Inl JSONDecodeError"
  "json_loads posix (cps ''[1,]'') = Inl JSONDecodeError"
  "json_loads posix (cps ''[01]'') = Inl JSONDecodeError"
  "json_loads posix (cps ''{\"a\":1,}'') = Inl JSONDecodeError"
  "json_loads posix (cps ''[1 2]'') = Inl JSONDecodeError"
  "json_loads posix (cps ''1.'') = Inl JSONDecodeError"
  "json_loads posix (cps ''[]x'') = Inl JSONDecodeError"
  by code_simp+


lemma json_loads_surrogate_pair:
  "json_loads posix ([34, 92, 117] @ cps ''d83d'' @ [92, 117] @ cps ''dd34'' @ [34])
     = Inr (JStr [128308])"
  by (simp add: json_loads_def scan_once.simps skip_ws_def is_ws_def cps_def hexval_def
        low_escape_def)

lemma digits_replicate:
  "takeWhile is_digit (replicate n 49) = replicate n 49"
  "dropWhile is_digit (replicate n 49) = []"
  "filter is_digit (replicate n 49) = replicate n 49"
  by (induction n) (simp_all add: is_digit_def)

lemma int_part_ones: "int_part (replicate (Suc n) 49) = Some (replicate (Suc n) 49, [])"
  by (simp add: int_part_def Let_def digits_replicate is_digit_def)

lemma match_number_ones:
  "match_number (replicate (Suc n) 49) = Some (replicate (Suc n) 49, [], [])"
  by (simp only: match_number_def int_part_ones option.case prod.case)
     (simp add: frac_part_def exp_part_def)

lemma no_literal_ones:
  "\<not> literal ''null'' (49 # r)" "\<not> literal ''true'' (49 # r)" "\<not> literal ''false'' (49 # r)"
  by (simp_all add: literal_def cps_def)

lemma long_integer_refused:
  assumes "0 < max_str_digits rt" "max_str_digits rt < Suc n" "640 < Suc n"
  shows "json_loads rt (replicate (Suc n) 49) = Inl ValueError"
proof -
  have o: "over_limit (max_str_digits rt) (replicate (Suc n) 49)"
    using assms by (simp add: over_limit_def digits_replicate del: replicate_Suc)
  have m: "match_number (49 # replicate n 49) = Some (49 # replicate n 49, [], [])"
    using match_number_ones [of n] by simp
  have "scan_once (max_str_digits rt) (spare_depth rt + 2) (49 # replicate n 49) = Inl ValueError"
    using o by (subst scan_once.simps) (simp add: no_literal_ones m)
  then show ?thesis
    by (simp add: json_loads_def skip_ws_def is_ws_def)
qed

lemma deep_nesting_refused_scan:
  "scan_once mx d (replicate (Suc d) 91 @ r) = Inl RecursionError"
proof (induction d)
  case 0
  then show ?case by (simp add: scan_once.simps)
next
  case (Suc d)
  have "array_items mx d [] (replicate (Suc d) 91 @ r) = Inl RecursionError"
    by (subst array_items.simps) (simp only: Suc sum.case)
  then show ?case
    by (subst scan_once.simps) (simp add: skip_ws_def is_ws_def)
qed

lemma deep_nesting_refused:
  "json_loads rt (replicate (Suc (spare_depth rt + 2)) 91 @ r) = Inl RecursionError"
proof -
  have w: "skip_ws (replicate (Suc (spare_depth rt + 2)) 91 @ r)
             = replicate (Suc (spare_depth rt + 2)) 91 @ r"
    by (simp add: skip_ws_def is_ws_def)
  show ?thesis
    by (simp only: json_loads_def w deep_nesting_refused_scan sum.case)
qed

section \<open>The claims\<close>

text \<open>
  C1. With at least one class selected and a length of at least 1, the generated password
  has exactly \<open>length\<close> characters, each of them a member of the concatenation, in the
  order uppercase, lowercase, digits, symbols, of the selected classes. The password is
  the one shown in the entry field; it is the result unless the history file cannot be
  written.
\<close>

theorem generate_password_length_and_alphabet:
  assumes "upper_var st \<or> lower_var st \<or> digits_var st \<or> symbols_var st"
    and "1 \<le> length_var st"
  shows "\<exists>pw. (fst (generate_password rnd now st) = Generated pw
               \<or> fst (generate_password rnd now st) = Failed OSError)
          \<and> (files st history_path \<noteq> Some Denied \<longrightarrow> fst (generate_password rnd now st) = Generated pw)
          \<and> password_entry (snd (generate_password rnd now st)) = pw
          \<and> int (length pw) = length_var st
          \<and> (\<forall>c\<in>set pw. c \<in> set ((if upper_var st then ''ABCDEFGHIJKLMNOPQRSTUVWXYZ'' else [])
                                  @ (if lower_var st then ''abcdefghijklmnopqrstuvwxyz'' else [])
                                  @ (if digits_var st then ''0123456789'' else [])
                                  @ (if symbols_var st then ''!@#$%^&*()_+-=[]{}|;:,.<>?'' else [])))"
proof -
  from assms(1) have ne: "charset st \<noteq> []" by (simp add: charset_empty_iff)
  let ?pw = "map (\<lambda>k. choice (charset st) (rnd k)) [0..<nat (length_var st)]"
  have len: "int (length ?pw) = length_var st" using assms(2) by simp
  have mem: "\<forall>c\<in>set ?pw. c \<in> set (charset st)" using ne by (auto simp: choice_in)
  have cs: "charset st = (if upper_var st then ''ABCDEFGHIJKLMNOPQRSTUVWXYZ'' else [])
                                  @ (if lower_var st then ''abcdefghijklmnopqrstuvwxyz'' else [])
                                  @ (if digits_var st then ''0123456789'' else [])
                                  @ (if symbols_var st then ''!@#$%^&*()_+-=[]{}|;:,.<>?'' else [])"
    by (simp add: charset_eq ascii_uppercase_def ascii_lowercase_def digits_def symbols_def)
  have res: "(fst (generate_password rnd now st) = Generated ?pw
               \<or> fst (generate_password rnd now st) = Failed OSError)
          \<and> (files st history_path \<noteq> Some Denied \<longrightarrow> fst (generate_password rnd now st) = Generated ?pw)
          \<and> password_entry (snd (generate_password rnd now st)) = ?pw"
    by (simp add: generate_password_accepted [OF ne] Let_def update_history_display_def)
  from res len mem cs show ?thesis by metis
qed

theorem generate_password_length_and_alphabet_witness:
  "(upper_var (initial [] Map.empty) \<or> lower_var (initial [] Map.empty)
      \<or> digits_var (initial [] Map.empty) \<or> symbols_var (initial [] Map.empty))
   \<and> 1 \<le> length_var (initial [] Map.empty)
   \<and> (\<exists>pw. (fst (generate_password (\<lambda>k. 7 * k + 3) ''2024-01-02 03:04:05'' (initial [] Map.empty)) = Generated pw
               \<or> fst (generate_password (\<lambda>k. 7 * k + 3) ''2024-01-02 03:04:05'' (initial [] Map.empty)) = Failed OSError)
          \<and> (files (initial [] Map.empty) history_path \<noteq> Some Denied \<longrightarrow> fst (generate_password (\<lambda>k. 7 * k + 3) ''2024-01-02 03:04:05'' (initial [] Map.empty)) = Generated pw)
          \<and> password_entry (snd (generate_password (\<lambda>k. 7 * k + 3) ''2024-01-02 03:04:05'' (initial [] Map.empty))) = pw
          \<and> int (length pw) = length_var (initial [] Map.empty)
          \<and> (\<forall>c\<in>set pw. c \<in> set ((if upper_var (initial [] Map.empty) then ''ABCDEFGHIJKLMNOPQRSTUVWXYZ'' else [])
                                  @ (if lower_var (initial [] Map.empty) then ''abcdefghijklmnopqrstuvwxyz'' else [])
                                  @ (if digits_var (initial [] Map.empty) then ''0123456789'' else [])
                                  @ (if symbols_var (initial [] Map.empty) then ''!@#$%^&*()_+-=[]{}|;:,.<>?'' else []))))
   \<and> fst (generate_password (\<lambda>k. 7 * k + 3) ''2024-01-02 03:04:05'' (initial [] Map.empty))
       = Generated ''DKRYfmt07%+|''"
proof -
  have h1: "upper_var (initial [] Map.empty) \<or> lower_var (initial [] Map.empty)
      \<or> digits_var (initial [] Map.empty) \<or> symbols_var (initial [] Map.empty)"
    by (simp add: initial_simps)
  have h2: "1 \<le> length_var (initial [] Map.empty)" by (simp add: initial_simps)
  from h1 h2 generate_password_length_and_alphabet [OF h1 h2] sample_generation
  show ?thesis by blast
qed

text \<open>
  C2. The label is a function of the password alone: the score is the sum of five tests
  (length at least 12, a lowercase letter, an uppercase letter, a digit, a character of the
  symbol set), it lies between 0 and 5, scores 0 to 2 give Weak, 3 and 4 Medium, 5 Strong;
  the empty string scores 0 and is Weak, and \<^verbatim>\<open>Ab3!defghij\<close> scores 4 and is Medium.
\<close>

theorem check_strength_score:
  "score pw = of_bool (12 \<le> length pw) + of_bool (\<exists>c\<in>set pw. islower c)
       + of_bool (\<exists>c\<in>set pw. isupper c) + of_bool (\<exists>c\<in>set pw. isdigit c)
       + of_bool (\<exists>c\<in>set pw. c \<in> set ''!@#$%^&*()_+-=[]{}|;:,.<>?'')
   \<and> score pw \<le> 5
   \<and> fst (check_strength pw)
       = (if score pw \<in> {0, 1, 2} then Weak else if score pw \<in> {3, 4} then Medium else Strong)
   \<and> (fst (check_strength pw) = Strong) = (score pw = 5)
   \<and> score [] = 0 \<and> fst (check_strength []) = Weak
   \<and> score ''Ab3!defghij'' = 4 \<and> fst (check_strength ''Ab3!defghij'') = Medium"
proof -
  have s: "score pw = of_bool (12 \<le> length pw) + of_bool (\<exists>c\<in>set pw. islower c)
       + of_bool (\<exists>c\<in>set pw. isupper c) + of_bool (\<exists>c\<in>set pw. isdigit c)
       + of_bool (\<exists>c\<in>set pw. c \<in> set ''!@#$%^&*()_+-=[]{}|;:,.<>?'')"
    using score_sum [of pw] by (simp only: symbols_def)
  have b: "score pw \<le> 5" unfolding score_sum by (simp add: of_bool_def)
  have m: "fst (check_strength pw)
       = (if score pw \<in> {0, 1, 2} then Weak else if score pw \<in> {3, 4} then Medium else Strong)"
    by (auto simp: check_strength_def)
  have t: "(fst (check_strength pw) = Strong) = (score pw = 5)"
    using b by (auto simp: check_strength_def)
  have e: "score [] = 0" by (simp add: score_def)
  have e': "fst (check_strength []) = Weak" by (simp add: check_strength_def e)
  have v: "score ''Ab3!defghij'' = 4"
    by (simp add: score_def Let_def islower_def isupper_def isdigit_def symbols_def)
  have v': "fst (check_strength ''Ab3!defghij'') = Medium" by (simp add: check_strength_def v)
  from s b m t e e' v v' show ?thesis by blast
qed

text \<open>
  C3, as stated: generation fails whenever the length is below 1. It does not: with a class
  selected and length 0 the empty password is generated and recorded.
\<close>

theorem generate_password_zero_length_counterexample:
  "length_var zero_length < 1
   \<and> fst (generate_password first_index ''2024-01-02 03:04:05'' zero_length) = Generated []
   \<and> history (snd (generate_password first_index ''2024-01-02 03:04:05'' zero_length))
       = [\<lparr>password = [], timestamp = ''2024-01-02 03:04:05'', strength = Weak\<rparr>]"
proof -
  have ne: "charset zero_length \<noteq> []"
    by (simp add: charset_empty_iff zero_length_def initial_simps)
  have w: "check_strength [] = (Weak, Red)" by (simp add: check_strength_def score_def)
  have z: "length_var zero_length = 0" "files zero_length history_path = None"
    "history zero_length = []"
    by (simp_all add: zero_length_def initial_simps)
  show ?thesis
    by (simp add: generate_password_accepted [OF ne] Let_def z w update_history_display_def)
qed

text \<open>
  C3, amended: generation is refused exactly when no class is selected, whatever the
  length; with a class selected and a length below 1 the password is empty and is appended
  to the history like any other.
\<close>

theorem generate_password_rejects_iff:
  "(fst (generate_password rnd now st) = Rejected)
     = (\<not> (upper_var st \<or> lower_var st \<or> digits_var st \<or> symbols_var st))
   \<and> ((upper_var st \<or> lower_var st \<or> digits_var st \<or> symbols_var st) \<and> length_var st < 1
       \<longrightarrow> password_entry (snd (generate_password rnd now st)) = []
            \<and> history (snd (generate_password rnd now st))
                = history st @ [\<lparr>password = [], timestamp = now, strength = Weak\<rparr>]
            \<and> fst (generate_password rnd now st)
                = (if files st history_path = Some Denied then Failed OSError else Generated []))"
proof (cases "charset st = []")
  case True
  then show ?thesis
    using charset_empty_iff [of st] by (simp add: generate_password_rejected)
next
  case False
  have w: "check_strength [] = (Weak, Red)" by (simp add: check_strength_def score_def)
  from False have fl: "upper_var st \<or> lower_var st \<or> digits_var st \<or> symbols_var st"
    by (simp add: charset_empty_iff)
  have nr: "fst (generate_password rnd now st) \<noteq> Rejected"
    by (simp add: generate_password_accepted [OF False] Let_def)
  show ?thesis
  proof (cases "length_var st < 1")
    case True
    then have z: "nat (length_var st) = 0" by simp
    show ?thesis using nr fl True
      by (simp add: generate_password_accepted [OF False] Let_def z w update_history_display_def)
  next
    case False
    then show ?thesis using nr fl by simp
  qed
qed

theorem generate_password_rejects_iff_witness:
  "((upper_var negative_length \<or> lower_var negative_length \<or> digits_var negative_length
       \<or> symbols_var negative_length) \<and> length_var negative_length < 1)
   \<and> fst (generate_password (\<lambda>k. k) ''2024-01-02 03:04:05'' negative_length) = Generated []
   \<and> history (snd (generate_password (\<lambda>k. k) ''2024-01-02 03:04:05'' negative_length))
       = [\<lparr>password = [], timestamp = ''2024-01-02 03:04:05'', strength = Weak\<rparr>]"
proof -
  have h: "(upper_var negative_length \<or> lower_var negative_length \<or> digits_var negative_length
       \<or> symbols_var negative_length) \<and> length_var negative_length < 1"
    by (simp add: negative_length_def initial_simps)
  have s: "files negative_length history_path = None" "history negative_length = []"
    by (simp_all add: negative_length_def initial_simps)
  from generate_password_rejects_iff [of "\<lambda>k. k" "''2024-01-02 03:04:05''" negative_length] h s
  show ?thesis by simp
qed

text \<open>
  C4. With no class selected, for every length, generation is refused: a warning is shown,
  no password is produced, the history is unchanged and nothing is written.
\<close>

theorem generate_password_no_class:
  assumes "\<not> upper_var st" "\<not> lower_var st" "\<not> digits_var st" "\<not> symbols_var st"
  shows "fst (generate_password rnd now st) = Rejected
     \<and> history (snd (generate_password rnd now st)) = history st
     \<and> files (snd (generate_password rnd now st)) = files st
     \<and> password_entry (snd (generate_password rnd now st)) = password_entry st
     \<and> dialogs (snd (generate_password rnd now st)) = dialogs st @ [Warning]"
proof -
  from assms have "charset st = []" by (simp add: charset_empty_iff)
  then show ?thesis by (simp add: generate_password_rejected)
qed

theorem generate_password_no_class_witness:
  "\<not> upper_var (no_class 16) \<and> \<not> lower_var (no_class 16) \<and> \<not> digits_var (no_class 16)
   \<and> \<not> symbols_var (no_class 16)
   \<and> fst (generate_password (\<lambda>k. k) ''2024-01-02 03:04:05'' (no_class 16)) = Rejected
   \<and> history (snd (generate_password (\<lambda>k. k) ''2024-01-02 03:04:05'' (no_class 16))) = []
   \<and> files (snd (generate_password (\<lambda>k. k) ''2024-01-02 03:04:05'' (no_class 16))) history_path = None"
proof -
  have h: "\<not> upper_var (no_class 16)" "\<not> lower_var (no_class 16)" "\<not> digits_var (no_class 16)"
    "\<not> symbols_var (no_class 16)"
    by (simp_all add: no_class_def)
  have s: "history (no_class 16) = []" "files (no_class 16) = Map.empty"
    by (simp_all add: no_class_def initial_simps)
  from generate_password_no_class [OF h, of "\<lambda>k. k" "''2024-01-02 03:04:05''"] h s
  show ?thesis by simp
qed

text \<open>
  C5. After \<^verbatim>\<open>save_history\<close> has written a history, \<^verbatim>\<open>load_history\<close> returns exactly its
  entries: as many, in the same order, each with the same password, timestamp and strength,
  and no other history decodes to the same value. So it is after every successful
  generation, which appends an entry and saves.
\<close>

theorem save_then_load:
  assumes "save_history st = Inr st'"
  shows "load_history rt (files st') = Inr (store_json (history st))
     \<and> history st' = history st
     \<and> (\<exists>js. load_history rt (files st') = Inr (JArr js)
            \<and> length js = length (history st)
            \<and> (\<forall>i < length (history st).
                  js ! i = JObj [(cps ''password'', JStr (cps (password (history st ! i)))),
                                 (cps ''timestamp'', JStr (cps (timestamp (history st ! i)))),
                                 (cps ''strength'', JStr (label (strength (history st ! i))))]))
     \<and> (\<forall>es. load_history rt (files st') = Inr (store_json es) \<longrightarrow> es = history st)
     \<and> (\<forall>rnd now s pw. fst (generate_password rnd now s) = Generated pw \<longrightarrow>
            load_history rt (files (snd (generate_password rnd now s)))
              = Inr (store_json (history s
                       @ [\<lparr>password = pw, timestamp = now, strength = fst (check_strength pw)\<rparr>])))"
proof (intro conjI)
  show "\<forall>rnd now s pw. fst (generate_password rnd now s) = Generated pw \<longrightarrow>
            load_history rt (files (snd (generate_password rnd now s)))
              = Inr (store_json (history s
                       @ [\<lparr>password = pw, timestamp = now, strength = fst (check_strength pw)\<rparr>]))"
    by (intro allI impI) (rule load_after_generate)
next
  show l: "load_history rt (files st') = Inr (store_json (history st))"
    using assms by (rule load_after_save)
  show "history st' = history st"
    using assms by (auto simp: save_history_cases split: if_splits)
  show "\<exists>js. load_history rt (files st') = Inr (JArr js)
            \<and> length js = length (history st)
            \<and> (\<forall>i < length (history st).
                  js ! i = JObj [(cps ''password'', JStr (cps (password (history st ! i)))),
                                 (cps ''timestamp'', JStr (cps (timestamp (history st ! i)))),
                                 (cps ''strength'', JStr (label (strength (history st ! i))))])"
  proof (intro exI conjI)
    show "load_history rt (files st') = Inr (JArr (map entry_json (history st)))"
      using l by (simp only: store_json_def)
    show "length (map entry_json (history st)) = length (history st)" by simp
    show "\<forall>i < length (history st).
             map entry_json (history st) ! i
               = JObj [(cps ''password'', JStr (cps (password (history st ! i)))),
                       (cps ''timestamp'', JStr (cps (timestamp (history st ! i)))),
                       (cps ''strength'', JStr (label (strength (history st ! i))))]"
      by (simp add: entry_json_def)
  qed
  show "\<forall>es. load_history rt (files st') = Inr (store_json es) \<longrightarrow> es = history st"
  proof (intro allI impI)
    fix es
    assume "load_history rt (files st') = Inr (store_json es)"
    with l have "store_json es = store_json (history st)" by simp
    then show "es = history st" by (rule store_json_inj)
  qed
qed

theorem save_then_load_witness:
  "\<exists>st'. save_history (initial two_entries Map.empty) = Inr st'
      \<and> load_history posix (files st') = Inr (store_json two_entries)
      \<and> length two_entries = 2"
proof -
  let ?st = "initial two_entries Map.empty"
  let ?st' = "?st\<lparr>files := (files ?st)(history_path \<mapsto> Content (dump_history (history ?st)))\<rparr>"
  have f: "files ?st history_path \<noteq> Some Denied" by (simp add: initial_simps)
  have s: "save_history ?st = Inr ?st'"
    using f by (simp only: save_history_cases if_False)
  have "load_history posix (files ?st') = Inr (store_json (history ?st))"
    by (rule conjunct1 [OF save_then_load [OF s, of posix]])
  then have l: "load_history posix (files ?st') = Inr (store_json two_entries)"
    by (simp only: initial_simps)
  have n: "length two_entries = 2" by (simp add: two_entries_def)
  from s l n show ?thesis by blast
qed

text \<open>
  C6. A successful generation leaves the history as it was, followed by exactly one new
  entry; the file holds the whole new history.
\<close>

theorem generate_password_appends:
  assumes "fst (generate_password rnd now st) = Generated pw"
  shows "history (snd (generate_password rnd now st))
           = history st @ [\<lparr>password = pw, timestamp = now, strength = fst (check_strength pw)\<rparr>]
     \<and> length (history (snd (generate_password rnd now st))) = length (history st) + 1
     \<and> take (length (history st)) (history (snd (generate_password rnd now st))) = history st
     \<and> files (snd (generate_password rnd now st)) history_path
         = Some (Content (dump_history (history (snd (generate_password rnd now st)))))"
proof (cases "charset st = []")
  case True
  with assms show ?thesis by (simp add: generate_password_rejected)
next
  case False
  with assms show ?thesis
    by (auto simp: generate_password_accepted [OF False] Let_def update_history_display_def
             split: if_splits)
qed

theorem generate_password_appends_witness:
  "fst (generate_password (\<lambda>k. 0) ''2024-01-02 03:04:07'' (initial two_entries Map.empty))
     = Generated ''AAAAAAAAAAAA''
   \<and> history (snd (generate_password (\<lambda>k. 0) ''2024-01-02 03:04:07'' (initial two_entries Map.empty)))
       = two_entries @ [\<lparr>password = ''AAAAAAAAAAAA'', timestamp = ''2024-01-02 03:04:07'',
                          strength = Weak\<rparr>]"
proof -
  have g: "fst (generate_password (\<lambda>k. 0) ''2024-01-02 03:04:07'' (initial two_entries Map.empty))
     = Generated ''AAAAAAAAAAAA''"
    using generate_password_constant_draw(1) [OF charset_initial, of two_entries Map.empty 0]
    by (simp add: initial_simps first_choice twelve_A)
  from generate_password_appends [OF g] g show ?thesis
    by (simp add: initial_simps check_strength_twelve_A)
qed

text \<open>
  C7, as stated: the export of \<open>K\<close> entries has \<open>K + 1\<close> lines, the header
  \<^verbatim>\<open>password,timestamp,strength\<close> and one row per entry with the three fields verbatim.
  It fails in five ways. For an empty history the frame has no column: the file is one
  empty line and holds no header. A password with a comma, as the symbol class gives, is
  written between double quotes; one with a double quote also has the quote doubled; one
  with a line feed is written between double quotes with its line feed, so the file has
  one line more; and where the writer quotes carriage returns, a password with a carriage
  return is written between double quotes.
\<close>

theorem export_history_counterexample:
  "export_history posix ''out.csv'' (initial [] Map.empty)
     = Inr ((initial [] Map.empty)
              \<lparr>files := [''out.csv'' \<mapsto> Content [10]], dialogs := [Info]\<rparr>)
   \<and> to_csv posix [comma_entry]
       = cps ''password,timestamp,strength'' @ [10]
         @ [34] @ cps ''aB3,x'' @ [34] @ cps '',2024-01-02 03:04:05,'' @ label Medium @ [10]
   \<and> to_csv posix [quote_entry]
       = cps ''password,timestamp,strength'' @ [10]
         @ [34, 97, 34, 34, 98, 34] @ cps '',2024-01-02 03:04:05,'' @ label Weak @ [10]
   \<and> count_list (to_csv posix [lf_entry]) 10 = 3
   \<and> to_csv posix_quoting_cr [cr_entry]
       = cps ''password,timestamp,strength'' @ [10]
         @ [34, 97, 13, 98, 34] @ cps '',2024-01-02 03:04:05,'' @ label Weak @ [10]"
proof -
  have t: "to_csv posix [] = [10]"
    by (simp add: to_csv_def columns_def csv_row_def posix_simps)
  have i: "files (initial [] Map.empty) = Map.empty" "history (initial [] Map.empty) = []"
    "dialogs (initial [] Map.empty) = []"
    by (simp_all add: initial_def update_history_display_def)
  have e: "export_history posix ''out.csv'' (initial [] Map.empty)
     = Inr ((initial [] Map.empty)
              \<lparr>files := [''out.csv'' \<mapsto> Content [10]], dialogs := [Info]\<rparr>)"
    by (simp add: export_history_def i t)
  have c: "to_csv posix [comma_entry]
       = cps ''password,timestamp,strength'' @ [10]
         @ [34] @ cps ''aB3,x'' @ [34] @ cps '',2024-01-02 03:04:05,'' @ label Medium @ [10]"
    by (simp add: to_csv_def columns_def csv_row_def cells_def csv_field_def csv_special_def
          posix_simps comma_entry_def cps_def)
  have q: "to_csv posix [quote_entry]
       = cps ''password,timestamp,strength'' @ [10]
         @ [34, 97, 34, 34, 98, 34] @ cps '',2024-01-02 03:04:05,'' @ label Weak @ [10]"
    by (simp add: to_csv_def columns_def csv_row_def cells_def csv_field_def csv_special_def
          posix_simps quote_entry_def cps_def)
  have l: "count_list (to_csv posix [lf_entry]) 10 = 3"
    by (simp add: to_csv_def columns_def csv_row_def cells_def csv_field_def csv_special_def
          posix_simps lf_entry_def cps_def)
  have r: "to_csv posix_quoting_cr [cr_entry]
       = cps ''password,timestamp,strength'' @ [10]
         @ [34, 97, 13, 98, 34] @ cps '',2024-01-02 03:04:05,'' @ label Weak @ [10]"
    by (simp add: to_csv_def columns_def csv_row_def cells_def csv_field_def csv_special_def
          posix_simps cr_entry_def cps_def)
  from e c q l r show ?thesis by (intro conjI)
qed

text \<open>
  C7, amended: for a history of \<open>K \<ge> 1\<close> entries whose passwords and timestamps hold no
  double quote, carriage return or line feed, the file is exactly \<open>K + 1\<close> lines, each ended
  by the line separator: the header and one row per entry, in the order of the history,
  made of the password, the timestamp and the strength separated by commas, each written
  as it is stored, but a password or timestamp that holds a comma between double quotes.
\<close>

theorem export_history_rows:
  assumes "history st \<noteq> []" "filename \<noteq> []" "files st filename \<noteq> Some Denied"
    and "\<forall>e\<in>set (history st).
           34 \<notin> set (cps (password e)) \<and> 13 \<notin> set (cps (password e)) \<and> 10 \<notin> set (cps (password e))
           \<and> 34 \<notin> set (cps (timestamp e)) \<and> 13 \<notin> set (cps (timestamp e))
           \<and> 10 \<notin> set (cps (timestamp e))"
  shows "\<exists>st' txt. export_history rt filename st = Inr st'
           \<and> files st' filename = Some (Content txt)
           \<and> history st' = history st
           \<and> txt = concat (map (\<lambda>r. r @ linesep rt)
                      (cps ''password,timestamp,strength''
                       # map (\<lambda>e. quoted_if_comma (cps (password e)) @ [44]
                                   @ quoted_if_comma (cps (timestamp e)) @ [44]
                                   @ label (strength e)) (history st)))
           \<and> count_list txt 10 = length (history st) + 1"
proof -
  let ?txt = "to_csv rt (history st)"
  let ?st' = "st\<lparr>files := (files st)(filename \<mapsto> Content ?txt), dialogs := dialogs st @ [Info]\<rparr>"
  let ?rows = "cps ''password,timestamp,strength'' # map csv_line (history st)"
  have safe: "\<forall>e\<in>set (history st). safe_field (password e) \<and> safe_field (timestamp e)"
    using assms(4) by (simp add: safe_field_def)
  have e: "export_history rt filename st = Inr ?st'"
    using assms(2,3) by (auto simp: export_history_def split: option.splits fnode.splits)
  have t: "?txt = concat (map (\<lambda>r. r @ linesep rt) ?rows)"
    using assms(1) safe by (rule to_csv_nonempty)
  have n: "\<forall>r\<in>set ?rows. 10 \<notin> set r"
  proof
    fix r
    assume "r \<in> set ?rows"
    then consider "r = cps ''password,timestamp,strength''"
      | e where "e \<in> set (history st)" "r = csv_line e"
      by auto
    then show "10 \<notin> set r"
    proof cases
      case 1
      then show ?thesis by (simp add: cps_def)
    next
      case 2
      with safe show ?thesis by (simp add: csv_line_no_lf)
    qed
  qed
  have c: "count_list ?txt 10 = length (history st) + 1"
    unfolding t using count_rows [OF n, of rt] by simp
  have t': "?txt = concat (map (\<lambda>r. r @ linesep rt)
                      (cps ''password,timestamp,strength''
                       # map (\<lambda>e. quoted_if_comma (cps (password e)) @ [44]
                                   @ quoted_if_comma (cps (timestamp e)) @ [44]
                                   @ label (strength e)) (history st)))"
    unfolding t by (simp add: csv_line_def [abs_def])
  have f: "files ?st' filename = Some (Content ?txt)" "history ?st' = history st" by simp_all
  have "export_history rt filename st = Inr ?st'
           \<and> files ?st' filename = Some (Content ?txt)
           \<and> history ?st' = history st
           \<and> ?txt = concat (map (\<lambda>r. r @ linesep rt)
                      (cps ''password,timestamp,strength''
                       # map (\<lambda>e. quoted_if_comma (cps (password e)) @ [44]
                                   @ quoted_if_comma (cps (timestamp e)) @ [44]
                                   @ label (strength e)) (history st)))
           \<and> count_list ?txt 10 = length (history st) + 1"
    by (intro conjI e f t' c)
  then show ?thesis by (intro exI)
qed

theorem export_history_rows_witness:
  "\<exists>st' txt. export_history posix ''out.csv'' (initial two_entries Map.empty) = Inr st'
      \<and> files st' ''out.csv'' = Some (Content txt)
      \<and> txt = cps ''password,timestamp,strength'' @ [10]
              @ [34] @ cps ''aB3,x'' @ [34] @ cps '',2024-01-02 03:04:05,'' @ label Medium @ [10]
              @ cps ''zz,2024-01-02 03:04:06,'' @ label Weak @ [10]
      \<and> count_list txt 10 = 3"
proof -
  let ?st = "initial two_entries Map.empty"
  have h: "history ?st = two_entries" "files ?st = Map.empty"
    by (simp_all add: initial_simps)
  have h1: "history ?st \<noteq> []" unfolding h by (simp add: two_entries_def)
  have h2: "''out.csv'' \<noteq> []" by simp
  have h3: "files ?st ''out.csv'' \<noteq> Some Denied" by (simp add: h)
  have h4: "\<forall>e\<in>set (history ?st).
           34 \<notin> set (cps (password e)) \<and> 13 \<notin> set (cps (password e)) \<and> 10 \<notin> set (cps (password e))
           \<and> 34 \<notin> set (cps (timestamp e)) \<and> 13 \<notin> set (cps (timestamp e))
           \<and> 10 \<notin> set (cps (timestamp e))"
    unfolding h by (simp add: two_entries_def cps_def)
  have rows: "concat (map (\<lambda>r. r @ linesep posix)
                      (cps ''password,timestamp,strength''
                       # map (\<lambda>e. quoted_if_comma (cps (password e)) @ [44]
                                   @ quoted_if_comma (cps (timestamp e)) @ [44]
                                   @ label (strength e)) two_entries))
     = cps ''password,timestamp,strength'' @ [10]
              @ [34] @ cps ''aB3,x'' @ [34] @ cps '',2024-01-02 03:04:05,'' @ label Medium @ [10]
              @ cps ''zz,2024-01-02 03:04:06,'' @ label Weak @ [10]"
    by (simp add: two_entries_def quoted_if_comma_def posix_simps cps_def)
  from export_history_rows [OF h1 h2 h3 h4, of posix]
  obtain st' body where r: "export_history posix ''out.csv'' ?st = Inr st'"
    "files st' ''out.csv'' = Some (Content body)"
    "body = concat (map (\<lambda>r. r @ linesep posix)
                      (cps ''password,timestamp,strength''
                       # map (\<lambda>e. quoted_if_comma (cps (password e)) @ [44]
                                   @ quoted_if_comma (cps (timestamp e)) @ [44]
                                   @ label (strength e)) (history ?st)))"
    "count_list body 10 = length (history ?st) + 1"
    by blast
  have l: "count_list body 10 = 3" using r(4) unfolding h by (simp add: two_entries_def)
  have s: "body = cps ''password,timestamp,strength'' @ [10]
              @ [34] @ cps ''aB3,x'' @ [34] @ cps '',2024-01-02 03:04:05,'' @ label Medium @ [10]
              @ cps ''zz,2024-01-02 03:04:06,'' @ label Weak @ [10]"
    using r(3) by (simp only: h rows)
  from r(1,2) s l show ?thesis by blast
qed




text \<open>
  C9. Generation does not force one character of every selected class: with all four
  classes selected and length 12, the draws that always pick index 0 give a password of
  twelve \<^verbatim>\<open>A\<close>, with no lowercase letter, no digit and no symbol.
\<close>

theorem generate_password_may_miss_class:
  "\<exists>st rnd. upper_var st \<and> lower_var st \<and> digits_var st \<and> symbols_var st
      \<and> 1 \<le> length_var st
      \<and> fst (generate_password rnd ''2024-01-02 03:04:05'' st) = Generated ''AAAAAAAAAAAA''
      \<and> password_entry (snd (generate_password rnd ''2024-01-02 03:04:05'' st)) = ''AAAAAAAAAAAA''
      \<and> set ''AAAAAAAAAAAA'' \<inter> set ascii_lowercase = {}
      \<and> set ''AAAAAAAAAAAA'' \<inter> set digits = {}
      \<and> set ''AAAAAAAAAAAA'' \<inter> set symbols = {}"
proof -
  let ?st = "initial [] Map.empty"
  have g: "fst (generate_password (\<lambda>k. 0) ''2024-01-02 03:04:05'' ?st) = Generated ''AAAAAAAAAAAA''"
    "password_entry (snd (generate_password (\<lambda>k. 0) ''2024-01-02 03:04:05'' ?st)) = ''AAAAAAAAAAAA''"
    using generate_password_constant_draw(1,2) [OF charset_initial, of "[]" Map.empty 0]
    by (simp_all add: initial_simps first_choice twelve_A)
  have d: "set ''AAAAAAAAAAAA'' \<inter> set ascii_lowercase = {}"
    "set ''AAAAAAAAAAAA'' \<inter> set digits = {}"
    "set ''AAAAAAAAAAAA'' \<inter> set symbols = {}"
    by (simp_all add: ascii_lowercase_def digits_def symbols_def)
  have f: "upper_var ?st \<and> lower_var ?st \<and> digits_var ?st \<and> symbols_var ?st \<and> 1 \<le> length_var ?st"
    by (simp add: initial_simps)
  from f g d show ?thesis by blast
qed

text \<open>
  C10. The symbol point is given for the characters of the literal symbol set only: a
  password without any of them gets no symbol point, whatever else it holds, so it scores
  at most 4; thirty spaces and tildes score 1.
\<close>

theorem check_strength_symbol_point:
  assumes "\<forall>c\<in>set pw. c \<notin> set ''!@#$%^&*()_+-=[]{}|;:,.<>?''"
  shows "score pw = of_bool (12 \<le> length pw) + of_bool (\<exists>c\<in>set pw. islower c)
           + of_bool (\<exists>c\<in>set pw. isupper c) + of_bool (\<exists>c\<in>set pw. isdigit c)
     \<and> score pw \<le> 4
     \<and> fst (check_strength pw) \<noteq> Strong
     \<and> ((\<forall>c\<in>set pw. \<not> islower c \<and> \<not> isupper c \<and> \<not> isdigit c)
          \<longrightarrow> score pw = of_bool (12 \<le> length pw) \<and> score pw \<le> 1
              \<and> fst (check_strength pw) = Weak)"
proof -
  from assms have n: "\<not> (\<exists>c\<in>set pw. c \<in> set symbols)" by (simp add: symbols_def)
  have s: "score pw = of_bool (12 \<le> length pw) + of_bool (\<exists>c\<in>set pw. islower c)
           + of_bool (\<exists>c\<in>set pw. isupper c) + of_bool (\<exists>c\<in>set pw. isdigit c)"
    unfolding score_sum using n by simp
  have b: "score pw \<le> 4" unfolding s by (simp add: of_bool_def)
  have t: "fst (check_strength pw) \<noteq> Strong" using b by (simp add: check_strength_def)
  have o: "(\<forall>c\<in>set pw. \<not> islower c \<and> \<not> isupper c \<and> \<not> isdigit c)
          \<longrightarrow> score pw = of_bool (12 \<le> length pw) \<and> score pw \<le> 1
              \<and> fst (check_strength pw) = Weak"
    unfolding s by (auto simp: check_strength_def s of_bool_def)
  from s b t o show ?thesis by blast
qed

theorem check_strength_symbol_point_witness:
  "list_all (\<lambda>c. c \<notin> set ''!@#$%^&*()_+-=[]{}|;:,.<>?'') spaces_and_tildes
   \<and> list_all (\<lambda>c. \<not> islower c \<and> \<not> isupper c \<and> \<not> isdigit c) spaces_and_tildes
   \<and> length spaces_and_tildes = 30
   \<and> score spaces_and_tildes = 1
   \<and> fst (check_strength spaces_and_tildes) = Weak"
proof -
  have h: "\<forall>c\<in>set spaces_and_tildes. c \<notin> set ''!@#$%^&*()_+-=[]{}|;:,.<>?''"
    by (simp add: spaces_and_tildes_def)
  have a: "\<forall>c\<in>set spaces_and_tildes. \<not> islower c \<and> \<not> isupper c \<and> \<not> isdigit c"
    by (simp add: spaces_and_tildes_def islower_def isupper_def isdigit_def)
  have l: "length spaces_and_tildes = 30" by (simp add: spaces_and_tildes_def)
  from check_strength_symbol_point [OF h] a l
  have "score spaces_and_tildes = 1 \<and> fst (check_strength spaces_and_tildes) = Weak"
    by simp
  with h a l show ?thesis by (simp add: list_all_iff)
qed

end
